theory Spec2Isabelle
  imports Complex_Main
begin

section \<open>The search tree of \<open>mtcs_v2.py\<close>\<close>

text \<open>
  Python objects of class \<open>Node\<close> live in a store: a list of node records, and a
  reference to a node is its index in that list. A new \<open>Node\<close> is allocated at
  the end of the store, so existing references stay valid. A Python reference never
  dangles; accordingly every statement below is about indices inside the store.

  Python floats are modelled by the reals (exact arithmetic), Python integers by
  \<open>int\<close>, and Python strings by \<open>string\<close>. The exceptions that the modelled code
  can raise by itself are the values of \<open>error\<close>.
\<close>

datatype error = TypeError | ValueError | IndexError | AttributeError

record node =
  state :: "string option"
  parent :: "nat option"
  children :: "nat list"
  visits :: int
  score :: real
  evaluation :: "string option"
  reward_samples :: "real list"
  Q :: real
  depth :: int

type_synonym store = "node list"

text \<open>\<open>Node.__init__(state, parent=None, evaluation=None, depth=0)\<close>\<close>

definition Node_init :: "string option \<Rightarrow> nat option \<Rightarrow> string option \<Rightarrow> int \<Rightarrow> node" where
  "Node_init st par ev d =
     \<lparr>state = st, parent = par, children = [], visits = 0, score = 0,
      evaluation = ev, reward_samples = [], Q = 0, depth = d\<rparr>"

text \<open>
  \<open>Node.add_child(child_state)\<close>: the child is allocated at the end of the store and its
  reference is appended to the children of \<open>self\<close>; the result is the new store and the
  reference of the child.
\<close>

definition add_child :: "store \<Rightarrow> nat \<Rightarrow> string option \<Rightarrow> store \<times> nat" where
  "add_child s self child_state =
     (let child = Node_init child_state (Some self) None (depth (s ! self) + 1);
          c = length s
      in (s[self := (s ! self)\<lparr>children := children (s ! self) @ [c]\<rparr>] @ [child], c))"

text \<open>
  \<open>Node.update_score(value)\<close>: recursion along the parent references. A walk that
  never reaches a node without parent does not return; that is the value \<open>None\<close>.
\<close>

partial_function (option) update_score :: "store \<Rightarrow> nat \<Rightarrow> real \<Rightarrow> store option" where
  "update_score s self v =
     (case parent (s ! self) of
        None \<Rightarrow> Some (s[self := (s ! self)\<lparr>score := score (s ! self) + v,
                                          visits := visits (s ! self) + 1\<rparr>])
      | Some p \<Rightarrow> update_score (s[self := (s ! self)\<lparr>score := score (s ! self) + v,
                                          visits := visits (s ! self) + 1\<rparr>]) p v)"

text \<open>\<open>np.mean\<close> and \<open>np.min\<close> on a non-empty list of floats.\<close>

definition np_mean :: "real list \<Rightarrow> real" where
  "np_mean xs = sum_list xs / real (length xs)"

definition np_min :: "real list \<Rightarrow> real" where
  "np_min xs = fold min (tl xs) (hd xs)"

text \<open>\<open>Node.add_reward(reward)\<close>, on the node itself and on a node of the store.\<close>

definition add_reward :: "node \<Rightarrow> real \<Rightarrow> node" where
  "add_reward n reward =
     (let samples = reward_samples n @ [reward];
          avg_reward = np_mean samples;
          min_reward = np_min samples
      in n\<lparr>reward_samples := samples, Q := (avg_reward + min_reward) / 2\<rparr>)"

definition add_reward_at :: "store \<Rightarrow> nat \<Rightarrow> real \<Rightarrow> store" where
  "add_reward_at s i reward = s[i := add_reward (s ! i) reward]"

section \<open>The evaluator's reports and the reward of \<open>simulate\<close>\<close>

text \<open>
  \<open>Solution.eval\<close> is a collaborator outside the modelled code. Of its two reports the
  code reads \<open>testreport.message\<close>, \<open>testreport.success_rate_number\<close>,
  \<open>fullreport.status\<close> and the text of \<open>fullreport\<close>; of the solution it reads
  \<open>to_submit_signal\<close>.
\<close>

record solution_eval =
  message :: string
  success_rate_number :: real
  status :: string
  fullreport_text :: string
  to_submit_signal :: bool

text \<open>The local variable \<open>score\<close> of \<open>simulate\<close>, as the nested \<open>if\<close> computes it.\<close>

definition simulate_score :: "solution_eval \<Rightarrow> real" where
  "simulate_score r =
     (if success_rate_number r = 1 then
        (if status r = ''timeout'' then - (2 / 10) else 1)
      else
        (if status r = ''timeout'' then - (2 / 10) else success_rate_number r))"

text \<open>The text that \<open>simulate\<close> leaves in \<open>node.evaluation\<close>.\<close>

definition simulate_evaluation :: "solution_eval \<Rightarrow> string" where
  "simulate_evaluation r =
     (if success_rate_number r = 1 \<and> status r = ''timeout''
      then ''The solution is correct but the algorithm TIMEOUT!!!! Try a faster solution@!!!!''
      else ''Sample test results: '' @ message r @ [CHR 0x0A] @ ''The full test cases: ''
             @ fullreport_text r)"

section \<open>Selection: \<open>ucb1\<close> and \<open>select\<close>\<close>

text \<open>
  A priority is a float that may be \<open>float('inf')\<close>. \<open>priority_gt\<close> is Python's \<open>>\<close>
  on two such values.
\<close>

datatype priority = Finite real | Infinity

fun priority_gt :: "priority \<Rightarrow> priority \<Rightarrow> bool" where
  "priority_gt (Finite a) (Finite b) = (b < a)"
| "priority_gt Infinity (Finite b) = True"
| "priority_gt a Infinity = False"

text \<open>
  \<open>MCTS_v2.ucb1(node, exploration_weight=1.4)\<close>. Reading \<open>node.parent.visits\<close> of a node
  without parent raises \<open>AttributeError\<close>; \<open>math.log\<close> raises \<open>ValueError\<close> outside the
  positive numbers and \<open>math.sqrt\<close> raises it on a negative number.
\<close>

definition ucb1 :: "store \<Rightarrow> nat \<Rightarrow> real \<Rightarrow> error + priority" where
  "ucb1 s node exploration_weight =
     (if visits (s ! node) = 0 then Inr Infinity
      else case parent (s ! node) of
             None \<Rightarrow> Inl AttributeError
           | Some p \<Rightarrow>
               if visits (s ! p) \<le> 0 then Inl ValueError
               else if ln (real_of_int (visits (s ! p)))
                         / (real_of_int (visits (s ! node)) + 0.01) < 0 then Inl ValueError
               else Inr (Finite (Q (s ! node) / real_of_int (visits (s ! node))
                           + exploration_weight
                             * sqrt (ln (real_of_int (visits (s ! p)))
                                     / (real_of_int (visits (s ! node)) + 0.01)))))"

text \<open>
  Python's \<open>max(iterable, key=...)\<close>: the key of every element is computed in order, and
  the running best is replaced only by an element whose key is strictly greater.
\<close>

fun max_loop :: "store \<Rightarrow> nat list \<Rightarrow> nat \<Rightarrow> priority \<Rightarrow> error + nat" where
  "max_loop s [] maxitem maxval = Inr maxitem"
| "max_loop s (item # rest) maxitem maxval =
     (case ucb1 s item 1.4 of
        Inl e \<Rightarrow> Inl e
      | Inr val \<Rightarrow> if priority_gt val maxval then max_loop s rest item val
                   else max_loop s rest maxitem maxval)"

definition select :: "store \<Rightarrow> nat \<Rightarrow> error + nat" where
  "select s node =
     (case children (s ! node) of
        [] \<Rightarrow> Inl ValueError
      | item # rest \<Rightarrow>
          (case ucb1 s item 1.4 of
             Inl e \<Rightarrow> Inl e
           | Inr val \<Rightarrow> max_loop s rest item val))"

section \<open>Expansion and the context of the generator\<close>

type_synonym chat_message = "string \<times> string"

text \<open>\<open>MCTS_v2.summarize_evaluation(evaluation_text)\<close>\<close>

definition summarize_evaluation :: "string \<Rightarrow> string" where
  "summarize_evaluation evaluation_text =
     (if length evaluation_text > 100
      then take 100 evaluation_text @ ''...''
             @ drop (length evaluation_text - 100) evaluation_text
      else evaluation_text)"

text \<open>
  The \<open>while\<close> loop of \<open>build_prompt_with_feedback\<close>. \<open>len(None)\<close> and
  \<open>str + None\<close> raise \<open>TypeError\<close>.
\<close>

partial_function (option) conversation_walk ::
    "store \<Rightarrow> nat \<Rightarrow> chat_message list \<Rightarrow> (error + chat_message list) option" where
  "conversation_walk s current_node conversation_history =
     (case parent (s ! current_node) of
        None \<Rightarrow> Some (Inr conversation_history)
      | Some p \<Rightarrow>
          (case state (s ! current_node) of
             None \<Rightarrow> Some (Inl TypeError)
           | Some st \<Rightarrow>
               (case evaluation (s ! current_node) of
                  None \<Rightarrow> Some (Inl TypeError)
                | Some ev \<Rightarrow>
                    conversation_walk s p
                      (conversation_history @ [(''assistant'', summarize_evaluation st @ ev)]))))"

definition build_prompt_with_feedback ::
    "store \<Rightarrow> nat \<Rightarrow> string \<Rightarrow> (error + chat_message list) option" where
  "build_prompt_with_feedback s node problem_description =
     (case conversation_walk s node [] of
        None \<Rightarrow> None
      | Some (Inl e) \<Rightarrow> Some (Inl e)
      | Some (Inr conversation_history) \<Rightarrow>
          Some (Inr ([(''user'', ''## Problem: '' @ problem_description)]
                     @ rev conversation_history
                     @ [(''user'', ''You never agree with the above solutions, and provide the TRULY correct and NO-TIMEOUT solution.'')])))"

text \<open>\<open>str.strip()\<close> on ASCII text.\<close>

definition is_space :: "char \<Rightarrow> bool" where
  "is_space c = (c \<in> set [CHR 0x09, CHR 0x0A, CHR 0x0B, CHR 0x0C, CHR 0x0D,
                          CHR 0x1C, CHR 0x1D, CHR 0x1E, CHR 0x1F, CHR 0x20])"

definition strip :: "string \<Rightarrow> string" where
  "strip x = rev (dropWhile is_space (rev (dropWhile is_space x)))"

text \<open>
  The generator \<open>llm.mcts_openai_messages\<close> is a collaborator: \<open>llm k messages\<close> is the
  list of the contents of \<open>response.choices\<close> that the \<open>k\<close>-th collaborator call of a run
  returns. The \<open>for\<close> loop of \<open>expand\<close> reads \<open>response.choices[i]\<close> for the indices
  of \<open>range(n)\<close>, \<open>n = 2\<close>.
\<close>

type_synonym generator = "nat \<Rightarrow> chat_message list \<Rightarrow> string list"

fun expand_children :: "store \<Rightarrow> nat \<Rightarrow> string list \<Rightarrow> nat list \<Rightarrow> error + store" where
  "expand_children s node choices [] = Inr s"
| "expand_children s node choices (i # rest) =
     (if i < length choices
      then (case add_child s node (Some (strip (choices ! i))) of
              (s', child_node) \<Rightarrow>
                expand_children (s'[child_node := (s' ! child_node)\<lparr>parent := Some node\<rparr>])
                  node choices rest)
      else Inl IndexError)"

definition expand ::
    "generator \<Rightarrow> nat \<Rightarrow> string \<Rightarrow> int \<Rightarrow> store \<Rightarrow> nat \<Rightarrow> (error + store) option" where
  "expand llm k problem_description depth_limit s node =
     (if depth (s ! node) \<ge> depth_limit then Some (Inr s)
      else case build_prompt_with_feedback s node problem_description of
             None \<Rightarrow> None
           | Some (Inl e) \<Rightarrow> Some (Inl e)
           | Some (Inr messages) \<Rightarrow> Some (expand_children s node (llm k messages) [0, 1]))"

section \<open>Simulation and backpropagation\<close>

text \<open>\<open>MCTS_v2.backpropagate(node, reward)\<close>\<close>

partial_function (option) backpropagate :: "store \<Rightarrow> nat option \<Rightarrow> real \<Rightarrow> store option" where
  "backpropagate s node reward =
     (case node of
        None \<Rightarrow> Some s
      | Some i \<Rightarrow> backpropagate (add_reward_at s i reward)
                    (parent (add_reward_at s i reward ! i)) reward)"

text \<open>
  \<open>MCTS_v2.simulate(node, problem)\<close>. The worker and \<open>Solution.eval\<close> together are the
  collaborator \<open>ev\<close>: \<open>ev k out\<close> is what the \<open>k\<close>-th collaborator call of a run reports
  for the candidate text \<open>out\<close>. The result is the new store and \<open>s.to_submit_signal\<close>.
\<close>

type_synonym evaluator = "nat \<Rightarrow> string option \<Rightarrow> solution_eval"

definition simulate :: "evaluator \<Rightarrow> nat \<Rightarrow> store \<Rightarrow> nat \<Rightarrow> (store \<times> bool) option" where
  "simulate ev k s node =
     (case backpropagate
             (s[node := (s ! node)\<lparr>evaluation :=
                   Some (simulate_evaluation (ev k (state (s ! node))))\<rparr>])
             (Some node) (simulate_score (ev k (state (s ! node)))) of
        None \<Rightarrow> None
      | Some s' \<Rightarrow> Some (s', to_submit_signal (ev k (state (s ! node)))))"

section \<open>The search loop\<close>

text \<open>The inner \<open>while current_node.children\<close> loop of \<open>mcts_trial\<close>.\<close>

partial_function (option) descend :: "store \<Rightarrow> nat \<Rightarrow> (error + nat) option" where
  "descend s current_node =
     (if children (s ! current_node) = [] then Some (Inr current_node)
      else case select s current_node of
             Inl e \<Rightarrow> Some (Inl e)
           | Inr c \<Rightarrow> descend s c)"

text \<open>The \<open>for child in current_node.children\<close> loop with its early \<open>return child\<close>.\<close>

fun simulate_children ::
    "evaluator \<Rightarrow> nat \<Rightarrow> store \<Rightarrow> nat list \<Rightarrow> (store \<times> nat option) option" where
  "simulate_children ev k s [] = Some (s, None)"
| "simulate_children ev k s (child # rest) =
     (case simulate ev k s child of
        None \<Rightarrow> None
      | Some (s', to_submit) \<Rightarrow>
          if to_submit then Some (s', Some child)
          else simulate_children ev (Suc k) s' rest)"

text \<open>
  The outer \<open>while step < max_steps\<close> loop. It returns what \<open>mcts_trial\<close> returns (a
  node or \<open>None\<close>), the store, and the value of \<open>step\<close> at that moment.
\<close>

function mcts_loop ::
    "generator \<Rightarrow> evaluator \<Rightarrow> string \<Rightarrow> int \<Rightarrow> int \<Rightarrow> nat \<Rightarrow> int \<Rightarrow> store \<Rightarrow> nat
       \<Rightarrow> (error + nat option \<times> store \<times> int) option" where
  "mcts_loop llm ev problem_description depth_limit max_steps k step s current_node =
     (if step < max_steps then
        (case descend s current_node of
           None \<Rightarrow> None
         | Some (Inl e) \<Rightarrow> Some (Inl e)
         | Some (Inr leaf) \<Rightarrow>
             (case expand llm k problem_description depth_limit s leaf of
                None \<Rightarrow> None
              | Some (Inl e) \<Rightarrow> Some (Inl e)
              | Some (Inr s1) \<Rightarrow>
                  (case simulate_children ev (Suc k) s1 (children (s1 ! leaf)) of
                     None \<Rightarrow> None
                   | Some (s2, Some child) \<Rightarrow> Some (Inr (Some child, s2, step))
                   | Some (s2, None) \<Rightarrow>
                       mcts_loop llm ev problem_description depth_limit max_steps
                         (Suc k + length (children (s1 ! leaf))) (step + 1) s2 leaf)))
      else Some (Inr (None, s, step)))"
  by pat_completeness auto
termination
  by (relation "measure (\<lambda>(llm, ev, pd, dl, max_steps, k, step, s, c). nat (max_steps - step))")
     auto

text \<open>
  \<open>MCTS_v2.zero_shot_initialization()\<close>: two generator calls with a retrieval in between
  (\<open>rag x\<close> is the text of what \<open>rg.retrieve\<close> returns for \<open>x\<close>); the new root replaces
  the old one, so the store of the run starts with the root alone.
\<close>

definition zero_shot_initialization ::
    "generator \<Rightarrow> (string \<Rightarrow> string) \<Rightarrow> string \<Rightarrow> error + store" where
  "zero_shot_initialization llm rag problem_description =
     (case llm 0 [(''user'', ''Problem: '' @ problem_description @ [CHR 0x0A]
                              @ ''Generate a solution.'')] of
        [] \<Rightarrow> Inl IndexError
      | initial_solution # _ \<Rightarrow>
          (case llm 1 [(''user'', ''Problem: '' @ problem_description @ [CHR 0x0A]
                 @ '' Some reference may useful from competitive coding handbook: ''
                 @ rag initial_solution @ ''. Refine the solution.'')] of
             [] \<Rightarrow> Inl IndexError
           | initial_solution1 # _ \<Rightarrow> Inr [Node_init (Some initial_solution1) None None 0]))"

text \<open>\<open>MCTS_v2.mcts_trial(problem, max_steps=10)\<close> on an engine with depth limit
  \<open>depth_limit\<close> (5 unless given).\<close>

definition mcts_trial ::
    "generator \<Rightarrow> (string \<Rightarrow> string) \<Rightarrow> evaluator \<Rightarrow> string \<Rightarrow> int \<Rightarrow> int
       \<Rightarrow> (error + nat option \<times> store \<times> int) option" where
  "mcts_trial llm rag ev problem_description depth_limit max_steps =
     (case zero_shot_initialization llm rag problem_description of
        Inl e \<Rightarrow> Some (Inl e)
      | Inr s \<Rightarrow> mcts_loop llm ev problem_description depth_limit max_steps 2 0 s 0)"

text \<open>The recursive equations of the four walks serve as their code equations.\<close>

declare update_score.simps [code]
declare conversation_walk.simps [code]
declare backpropagate.simps [code]
declare descend.simps [code]

section \<open>Notions used to state the properties\<close>

text \<open>
  \<open>root_path s node xs\<close>: following the parent references from \<open>node\<close> visits exactly
  the nodes \<open>xs\<close>, in this order, and ends at a node without parent (the last of \<open>xs\<close>).
\<close>

fun root_path :: "store \<Rightarrow> nat \<Rightarrow> nat list \<Rightarrow> bool" where
  "root_path s node [] = False"
| "root_path s node (x # xs) =
     (x = node \<and> (case parent (s ! node) of None \<Rightarrow> xs = [] | Some p \<Rightarrow> root_path s p xs))"

text \<open>The entry that the context walk collects at node \<open>x\<close>.\<close>

definition history_entry :: "store \<Rightarrow> nat \<Rightarrow> chat_message" where
  "history_entry s x = (''assistant'', summarize_evaluation (the (state (s ! x))) @ the (evaluation (s ! x)))"

text \<open>
  The priority of node \<open>n\<close> with parent \<open>p\<close> in the words of the specification:
  infinite for an unvisited node, and otherwise
  \<open>n.Q / n.visits + 1.4 * sqrt(ln(p.visits) / (n.visits + 0.01))\<close>.
\<close>

definition spec_priority :: "store \<Rightarrow> nat \<Rightarrow> nat \<Rightarrow> priority" where
  "spec_priority s p n =
     (if visits (s ! n) = 0 then Infinity
      else Finite (Q (s ! n) / real_of_int (visits (s ! n))
                   + 1.4 * sqrt (ln (real_of_int (visits (s ! p)))
                                 / (real_of_int (visits (s ! n)) + 0.01))))"

text \<open>The store after two children with states \<open>a\<close> and \<open>b\<close> were added to \<open>node\<close>.\<close>

definition grow :: "store \<Rightarrow> nat \<Rightarrow> string \<Rightarrow> string \<Rightarrow> store" where
  "grow s node a b =
     s[node := (s ! node)\<lparr>children := children (s ! node) @ [length s, Suc (length s)]\<rparr>]
     @ [Node_init (Some a) (Some node) None (depth (s ! node) + 1),
        Node_init (Some b) (Some node) None (depth (s ! node) + 1)]"

section \<open>Example inputs\<close>

text \<open>A root, its child and its grandchild, the last two simulated.\<close>

definition example_chain :: store where
  "example_chain =
     [\<lparr>state = Some ''r'', parent = None, children = [1], visits = 0, score = 0,
       evaluation = None, reward_samples = [], Q = 0, depth = 0\<rparr>,
      \<lparr>state = Some ''a'', parent = Some 0, children = [2], visits = 0, score = 0,
       evaluation = Some ''e1'', reward_samples = [], Q = 0, depth = 1\<rparr>,
      \<lparr>state = Some ''b'', parent = Some 1, children = [], visits = 0, score = 0,
       evaluation = Some ''e2'', reward_samples = [], Q = 0, depth = 2\<rparr>]"

text \<open>A simulated child whose evaluation text has 300 characters.\<close>

definition long_feedback :: store where
  "long_feedback =
     [\<lparr>state = Some ''r'', parent = None, children = [1], visits = 0, score = 0,
       evaluation = None, reward_samples = [], Q = 0, depth = 0\<rparr>,
      \<lparr>state = Some ''s'', parent = Some 0, children = [], visits = 0, score = 0,
       evaluation = Some (replicate 300 (CHR ''e'')), reward_samples = [], Q = 0, depth = 1\<rparr>]"

text \<open>A visited and an unvisited child, below a parent that was visited once, and below
  a parent whose visit counter is still 0.\<close>

definition visited_sibling :: store where
  "visited_sibling =
     [\<lparr>state = Some ''r'', parent = None, children = [1, 2], visits = 1, score = 0,
       evaluation = None, reward_samples = [], Q = 0, depth = 0\<rparr>,
      \<lparr>state = Some ''a'', parent = Some 0, children = [], visits = 1, score = 0,
       evaluation = None, reward_samples = [0.5], Q = 0.5, depth = 1\<rparr>,
      \<lparr>state = Some ''b'', parent = Some 0, children = [], visits = 0, score = 0,
       evaluation = None, reward_samples = [], Q = 0, depth = 1\<rparr>]"

definition unvisited_parent :: store where
  "unvisited_parent =
     [\<lparr>state = Some ''r'', parent = None, children = [1, 2], visits = 0, score = 0,
       evaluation = None, reward_samples = [], Q = 0, depth = 0\<rparr>,
      \<lparr>state = Some ''a'', parent = Some 0, children = [], visits = 3, score = 0,
       evaluation = None, reward_samples = [], Q = 0.5, depth = 1\<rparr>,
      \<lparr>state = Some ''b'', parent = Some 0, children = [], visits = 0, score = 0,
       evaluation = None, reward_samples = [], Q = 0, depth = 1\<rparr>]"

text \<open>Generators that answer every call with two completions, and with one.\<close>

definition llm_two :: generator where
  "llm_two k messages = [''a'', '' b '']"

definition llm_one :: generator where
  "llm_one k messages = [''a'']"

text \<open>A child that was created but not simulated.\<close>

definition unsimulated_leaf :: store where
  "unsimulated_leaf =
     [\<lparr>state = Some ''r'', parent = None, children = [1], visits = 0, score = 0,
       evaluation = None, reward_samples = [], Q = 0, depth = 0\<rparr>,
      \<lparr>state = Some ''a'', parent = Some 0, children = [], visits = 0, score = 0,
       evaluation = None, reward_samples = [], Q = 0, depth = 1\<rparr>]"

section \<open>Invariants of a run\<close>

text \<open>Every parent reference points to a node that was allocated earlier.\<close>

definition parents_below :: "store \<Rightarrow> bool" where
  "parents_below s = (\<forall>i < length s. \<forall>p. parent (s ! i) = Some p \<longrightarrow> p < i)"

text \<open>The store \<open>s'\<close> arises from \<open>s\<close> by adding the reward \<open>r\<close> to some of its nodes.\<close>

definition touched :: "real \<Rightarrow> store \<Rightarrow> store \<Rightarrow> bool" where
  "touched r s s' =
     (length s' = length s \<and> (\<forall>j < length s. s' ! j = s ! j \<or> s' ! j = add_reward (s ! j) r))"

text \<open>The shape of every store of a run: only the root (index 0) has no parent, parents are
  allocated before their children, children references are inside the store, and every
  visit counter is 0.\<close>

definition tree_inv :: "store \<Rightarrow> bool" where
  "tree_inv s =
     (s \<noteq> [] \<and>
      (\<forall>i < length s.
         (parent (s ! i) = None \<longrightarrow> i = 0) \<and>
         (\<forall>p. parent (s ! i) = Some p \<longrightarrow> p < i) \<and> visits (s ! i) = 0 \<and>
         (\<forall>c \<in> set (children (s ! i)). i < c \<and> c < length s)))"

text \<open>Two stores agree on everything except rewards, quality and evaluations.\<close>

definition same_links :: "store \<Rightarrow> store \<Rightarrow> bool" where
  "same_links s s' =
     (length s' = length s \<and>
      (\<forall>j < length s. parent (s' ! j) = parent (s ! j) \<and> children (s' ! j) = children (s ! j)
         \<and> visits (s' ! j) = visits (s ! j) \<and> state (s' ! j) = state (s ! j)
         \<and> depth (s' ! j) = depth (s ! j)))"

text \<open>A node that \<open>simulate\<close> has processed without a submit signal: it has an evaluation,
  and its first reward sample is the reward of an evaluation without signal.\<close>

definition simulated :: "evaluator \<Rightarrow> node \<Rightarrow> bool" where
  "simulated ev n =
     (state n \<noteq> None \<and> evaluation n \<noteq> None \<and> reward_samples n \<noteq> [] \<and>
      (\<exists>k out. \<not> to_submit_signal (ev k out) \<and> hd (reward_samples n) = simulate_score (ev k out)))"

text \<open>Every node other than the root has been simulated without a submit signal.\<close>

definition all_simulated :: "evaluator \<Rightarrow> store \<Rightarrow> bool" where
  "all_simulated ev s = (\<forall>i. 0 < i \<longrightarrow> i < length s \<longrightarrow> simulated ev (s ! i))"

text \<open>The store in which \<open>mcts_trial\<close> returns the node \<open>c\<close>: \<open>c\<close> is a leaf whose only
  reward sample comes from an evaluation with signal, all nodes created before it were
  simulated without signal, and the nodes created after it are siblings of \<open>c\<close> that
  were not simulated.\<close>

definition found_post :: "evaluator \<Rightarrow> store \<Rightarrow> nat \<Rightarrow> bool" where
  "found_post ev s c =
     (0 < c \<and> c < length s \<and> children (s ! c) = [] \<and> evaluation (s ! c) \<noteq> None \<and>
      (\<exists>k out. to_submit_signal (ev k out)
                \<and> reward_samples (s ! c) = [simulate_score (ev k out)]) \<and>
      (\<forall>i. 0 < i \<longrightarrow> i < c \<longrightarrow> simulated ev (s ! i)) \<and>
      (\<forall>i. c < i \<longrightarrow> i < length s \<longrightarrow>
         parent (s ! i) = parent (s ! c) \<and> evaluation (s ! i) = None
         \<and> reward_samples (s ! i) = [] \<and> children (s ! i) = []))"

text \<open>What a run that started in the loop at \<open>step\<close> returns.\<close>

definition trial_post :: "evaluator \<Rightarrow> int \<Rightarrow> int \<Rightarrow> nat option \<Rightarrow> store \<Rightarrow> int \<Rightarrow> bool" where
  "trial_post ev max_steps step res s n =
     (tree_inv s \<and>
      (case res of
         None \<Rightarrow> n = max step max_steps \<and> all_simulated ev s
       | Some c \<Rightarrow> step \<le> n \<and> n < max_steps \<and> found_post ev s c))"

text \<open>The equation of the outer loop is unfolded on demand only.\<close>

declare mcts_loop.simps [simp del]

section \<open>Contracts of the collaborators\<close>

text \<open>
  Modelled from the spec: the class \<open>LLM\<close> is not part of the modelled sources. The
  specification has the generator return as many candidates as were requested; the engine
  reads one completion in each of the two calls of the initialisation (calls 0 and 1) and
  two in every call of an expansion.
\<close>

definition generator_contract :: "generator \<Rightarrow> bool" where
  "generator_contract llm =
     (\<forall>k messages. (k < 2 \<longrightarrow> llm k messages \<noteq> []) \<and> (2 \<le> k \<longrightarrow> 2 \<le> length (llm k messages)))"

text \<open>
  Modelled from the spec: \<open>Solution.to_submit_signal\<close> is set by \<open>Solution.eval\<close>, which
  is not part of the modelled sources. The specification calls a reward of exactly 1.0
  the success signal.
\<close>

definition success_signal_contract :: "evaluator \<Rightarrow> bool" where
  "success_signal_contract ev =
     (\<forall>k out. to_submit_signal (ev k out) = (simulate_score (ev k out) = 1))"

section \<open>Example collaborators and projections of a run\<close>

text \<open>
  A retrieval that finds nothing, an evaluator that accepts every candidate and one that
  rejects every candidate.
\<close>

definition rag_none :: "string \<Rightarrow> string" where
  "rag_none query = ''''"


definition ev_fail :: evaluator where
  "ev_fail k out = \<lparr>message = ''wrong'', success_rate_number = 0, status = ''other-failure'',
                     fullreport_text = ''wrong'', to_submit_signal = False\<rparr>"

text \<open>
  What a run returned and the value of \<open>step\<close> at that moment; the visit counter and the
  number of reward samples of every node after a run; the depths of the leaves after a
  run.
\<close>

definition trial_result ::
    "(error + nat option \<times> store \<times> int) option \<Rightarrow> (nat option \<times> int) option" where
  "trial_result r = (case r of Some (Inr (res, s, n)) \<Rightarrow> Some (res, n) | _ \<Rightarrow> None)"

definition trial_counters ::
    "(error + nat option \<times> store \<times> int) option \<Rightarrow> (int \<times> nat) list option" where
  "trial_counters r =
     (case r of
        Some (Inr (res, s, n)) \<Rightarrow> Some (map (\<lambda>node. (visits node, length (reward_samples node))) s)
      | _ \<Rightarrow> None)"

definition trial_leaf_depths ::
    "(error + nat option \<times> store \<times> int) option \<Rightarrow> int list option" where
  "trial_leaf_depths r =
     (case r of
        Some (Inr (res, s, n)) \<Rightarrow> Some (map depth (filter (\<lambda>node. children node = []) s))
      | _ \<Rightarrow> None)"

text \<open>The statistics of a node.\<close>

definition node_counters :: "node \<Rightarrow> int \<times> real \<times> real list" where
  "node_counters n = (visits n, score n, reward_samples n)"

text \<open>A root with two branches; the first branch reaches depth 3.\<close>

definition depth3_tree :: store where
  "depth3_tree =
     [\<lparr>state = Some ''r'', parent = None, children = [1, 4], visits = 0, score = 0,
       evaluation = None, reward_samples = [], Q = 0, depth = 0\<rparr>,
      \<lparr>state = Some ''a'', parent = Some 0, children = [2], visits = 0, score = 0,
       evaluation = None, reward_samples = [], Q = 0, depth = 1\<rparr>,
      \<lparr>state = Some ''b'', parent = Some 1, children = [3], visits = 0, score = 0,
       evaluation = None, reward_samples = [], Q = 0, depth = 2\<rparr>,
      \<lparr>state = Some ''c'', parent = Some 2, children = [], visits = 0, score = 0,
       evaluation = None, reward_samples = [], Q = 0, depth = 3\<rparr>,
      \<lparr>state = Some ''d'', parent = Some 0, children = [], visits = 0, score = 0,
       evaluation = None, reward_samples = [], Q = 0, depth = 1\<rparr>]"

text \<open>
  The links of a tree: parent, children and depth of every node; and the links after two
  children were added to the node \<open>l\<close>.
\<close>

definition tree_shape :: "store \<Rightarrow> (nat option \<times> nat list \<times> int) list" where
  "tree_shape s = map (\<lambda>n. (parent n, children n, depth n)) s"

definition grow_shape ::
    "(nat option \<times> nat list \<times> int) list \<Rightarrow> nat \<Rightarrow> (nat option \<times> nat list \<times> int) list" where
  "grow_shape xs l =
     xs[l := (fst (xs ! l), fst (snd (xs ! l)) @ [length xs, Suc (length xs)], snd (snd (xs ! l)))]
     @ [(Some l, [], snd (snd (xs ! l)) + 1), (Some l, [], snd (snd (xs ! l)) + 1)]"

section \<open>The trace of a run\<close>

text \<open>
  The links of the tree after \<open>e\<close> expansions of a run: the first expansion grows the
  root, and every later one grows the first child that the expansion before it created
  (the node \<open>2 * e - 1\<close>).
\<close>

fun chain_shape :: "nat \<Rightarrow> (nat option \<times> nat list \<times> int) list" where
  "chain_shape 0 = [(None, [], 0)]"
| "chain_shape (Suc e) = grow_shape (chain_shape e) (2 * e - 1)"








section \<open>Properties\<close>

lemma np_min_Min: "xs \<noteq> [] \<Longrightarrow> np_min xs = Min (set xs)"
proof -
  have "fold min ys y = Min (insert y (set ys))" for ys and y :: real
  proof (induction ys arbitrary: y)
    case Nil
    show ?case by simp
  next
    case (Cons z zs)
    have "fold min (z # zs) y = Min (insert (min z y) (set zs))"
      using Cons by simp
    also have "\<dots> = Min (insert y (set (z # zs)))"
    proof (cases "set zs = {}")
      case True
      then show ?thesis by (simp add: min.commute)
    next
      case False
      then show ?thesis by (simp add: min.assoc min.left_commute min.commute)
    qed
    finally show ?case .
  qed
  moreover assume "xs \<noteq> []"
  ultimately show ?thesis
    by (cases xs) (simp_all add: np_min_def)
qed

text \<open>
  Claim C3. The reward of \<open>simulate\<close> is a function of the evaluator's result alone:
  sample success rate 1.0 with full status timeout gives -0.2, success rate 1.0 with
  another status gives 1.0, a success rate below 1.0 with status timeout gives -0.2,
  and a success rate below 1.0 with another status gives the success rate itself.
\<close>

theorem simulate_score_table:
  "(success_rate_number r = 1 \<and> status r = ''timeout'' \<longrightarrow> simulate_score r = - 0.2) \<and>
   (success_rate_number r = 1 \<and> status r \<noteq> ''timeout'' \<longrightarrow> simulate_score r = 1.0) \<and>
   (success_rate_number r < 1 \<and> status r = ''timeout'' \<longrightarrow> simulate_score r = - 0.2) \<and>
   (success_rate_number r < 1 \<and> status r \<noteq> ''timeout''
      \<longrightarrow> simulate_score r = success_rate_number r)"
  by (simp add: simulate_score_def)

theorem simulate_score_table_witness:
  "simulate_score \<lparr>message = ''m'', success_rate_number = 1.0, status = ''ok'',
                     fullreport_text = ''f'', to_submit_signal = True\<rparr> = 1.0 \<and>
   simulate_score \<lparr>message = ''m'', success_rate_number = 1.0, status = ''timeout'',
                     fullreport_text = ''f'', to_submit_signal = False\<rparr> = - 0.2 \<and>
   simulate_score \<lparr>message = ''m'', success_rate_number = 0.6, status = ''timeout'',
                     fullreport_text = ''f'', to_submit_signal = False\<rparr> = - 0.2 \<and>
   simulate_score \<lparr>message = ''m'', success_rate_number = 0.6, status = ''ok'',
                     fullreport_text = ''f'', to_submit_signal = False\<rparr> = 0.6"
  using
    simulate_score_table [of "\<lparr>message = ''m'', success_rate_number = 1.0, status = ''ok'',
                     fullreport_text = ''f'', to_submit_signal = True\<rparr>"]
    simulate_score_table [of "\<lparr>message = ''m'', success_rate_number = 1.0, status = ''timeout'',
                     fullreport_text = ''f'', to_submit_signal = False\<rparr>"]
    simulate_score_table [of "\<lparr>message = ''m'', success_rate_number = 0.6, status = ''timeout'',
                     fullreport_text = ''f'', to_submit_signal = False\<rparr>"]
    simulate_score_table [of "\<lparr>message = ''m'', success_rate_number = 0.6, status = ''ok'',
                     fullreport_text = ''f'', to_submit_signal = False\<rparr>"]
  by simp

subsection \<open>The quality estimate\<close>

lemma add_reward_simps [simp]:
  "reward_samples (add_reward n r) = reward_samples n @ [r]"
  "Q (add_reward n r) = (np_mean (reward_samples n @ [r]) + np_min (reward_samples n @ [r])) / 2"
  "state (add_reward n r) = state n"
  "parent (add_reward n r) = parent n"
  "children (add_reward n r) = children n"
  "visits (add_reward n r) = visits n"
  "score (add_reward n r) = score n"
  "evaluation (add_reward n r) = evaluation n"
  "depth (add_reward n r) = depth n"
  by (simp_all add: add_reward_def Let_def)

lemma reward_samples_foldl:
  "reward_samples (foldl add_reward n rs) = reward_samples n @ rs"
  by (induction rs rule: rev_induct) simp_all

text \<open>
  Claim C7. A node starts with no reward sample and \<open>Q = 0\<close>; \<open>add_reward\<close> is the only
  operation that writes \<open>reward_samples\<close> or \<open>Q\<close>. So a node that has received the
  rewards \<open>rs\<close>, in this order, holds exactly \<open>rs\<close> as its samples, and its \<open>Q\<close> is 0
  while \<open>rs\<close> is empty and \<open>(mean rs + min rs) / 2\<close> after every append.
\<close>

theorem add_reward_Q:
  "reward_samples (foldl add_reward (Node_init st par ev d) rs) = rs \<and>
   Q (foldl add_reward (Node_init st par ev d) rs)
     = (if rs = [] then 0 else (sum_list rs / real (length rs) + Min (set rs)) / 2)"
proof (cases rs rule: rev_cases)
  case Nil
  then show ?thesis by (simp add: Node_init_def)
next
  case (snoc ys y)
  have "reward_samples (foldl add_reward (Node_init st par ev d) ys) = ys"
    by (simp add: reward_samples_foldl Node_init_def)
  then have "Q (foldl add_reward (Node_init st par ev d) (ys @ [y]))
      = (np_mean (ys @ [y]) + np_min (ys @ [y])) / 2"
    by simp
  moreover have "reward_samples (foldl add_reward (Node_init st par ev d) rs) = rs"
    by (simp add: reward_samples_foldl Node_init_def)
  ultimately show ?thesis
    using snoc by (simp add: np_mean_def np_min_Min)
qed

theorem add_reward_Q_witness:
  "Q (foldl add_reward (Node_init None None None 0) [1, 0]) = 1 / 4"
  using add_reward_Q [of None None None 0 "[1, 0]"]
  by (simp add: Node_init_def np_mean_def np_min_def)

subsection \<open>The context of the generator\<close>

lemma conversation_walk_path:
  "root_path s node xs \<Longrightarrow>
   \<forall>x \<in> set (butlast xs). state (s ! x) \<noteq> None \<and> evaluation (s ! x) \<noteq> None \<Longrightarrow>
   conversation_walk s node h = Some (Inr (h @ map (history_entry s) (butlast xs)))"
proof (induction xs arbitrary: node h)
  case Nil
  then show ?case by simp
next
  case (Cons x xs)
  show ?case
  proof (cases "parent (s ! node)")
    case None
    with Cons.prems show ?thesis
      by (subst conversation_walk.simps) simp
  next
    case (Some p)
    with Cons.prems have rp: "root_path s p xs" and x: "x = node" by simp_all
    then have ne: "xs \<noteq> []" by (cases xs) simp_all
    with Cons.prems(2) x obtain st e where
      st: "state (s ! node) = Some st" and e: "evaluation (s ! node) = Some e"
      and rest: "\<forall>y \<in> set (butlast xs). state (s ! y) \<noteq> None \<and> evaluation (s ! y) \<noteq> None"
      by auto
    have "conversation_walk s node h
        = conversation_walk s p (h @ [(''assistant'', summarize_evaluation st @ e)])"
      by (subst conversation_walk.simps) (simp add: Some st e)
    also have "\<dots> = Some (Inr ((h @ [(''assistant'', summarize_evaluation st @ e)])
                          @ map (history_entry s) (butlast xs)))"
      by (rule Cons.IH [OF rp rest])
    finally show ?thesis
      using ne x st e by (simp add: history_entry_def)
  qed
qed

lemma summarize_evaluation_cases:
  "summarize_evaluation t =
     (if length t > 100 then take 100 t @ ''...'' @ rev (take 100 (rev t)) else t)"
  by (simp add: summarize_evaluation_def take_rev)


text \<open>
  Claim C8, as the code has it. The context walk starts at the leaf and follows the parent
  references; it collects an entry at the leaf and at every ancestor that has a parent, and
  none at the root. The entry of a node is its candidate state, cut to its first 100
  characters, an ellipsis and its last 100 characters when it is longer than 100
  characters and unchanged otherwise, followed by the node's evaluation text in full.
  The entries are collected from the leaf upwards and handed to the generator in the
  opposite order, between the problem statement and the closing request.
\<close>

theorem build_prompt_history:
  assumes "root_path s leaf xs"
    and "\<forall>x \<in> set (butlast xs). state (s ! x) \<noteq> None \<and> evaluation (s ! x) \<noteq> None"
  shows "build_prompt_with_feedback s leaf problem_description =
           Some (Inr ([(''user'', ''## Problem: '' @ problem_description)]
             @ rev (map (\<lambda>x. (''assistant'',
                      summarize_evaluation (the (state (s ! x))) @ the (evaluation (s ! x))))
                    (butlast xs))
             @ [(''user'', ''You never agree with the above solutions, and provide the TRULY correct and NO-TIMEOUT solution.'')]))
         \<and> (\<forall>t. summarize_evaluation t =
               (if length t > 100 then take 100 t @ ''...'' @ rev (take 100 (rev t)) else t))"
  using conversation_walk_path [OF assms, of "[]"]
  by (simp add: build_prompt_with_feedback_def summarize_evaluation_cases history_entry_def)

theorem build_prompt_history_witness:
  "build_prompt_with_feedback example_chain 2 ''p'' =
     Some (Inr [(''user'', ''## Problem: p''), (''assistant'', ''ae1''), (''assistant'', ''be2''),
                (''user'', ''You never agree with the above solutions, and provide the TRULY correct and NO-TIMEOUT solution.'')])"
  using build_prompt_history [of example_chain 2 "[2, 1, 0]" "''p''"]
  by (simp add: example_chain_def summarize_evaluation_def)

text \<open>
  The claim as written fails: the evaluation text of a node is not shortened. A node with
  state \<open>s\<close> and an evaluation of 300 characters contributes all 301 characters, and the
  root contributes no entry.
\<close>

theorem build_prompt_feedback_counterexample:
  "build_prompt_with_feedback long_feedback 1 ''p'' =
     Some (Inr [(''user'', ''## Problem: p''),
                (''assistant'', ''s'' @ replicate 300 (CHR ''e'')),
                (''user'', ''You never agree with the above solutions, and provide the TRULY correct and NO-TIMEOUT solution.'')])
   \<and> summarize_evaluation (replicate 300 (CHR ''e''))
       = replicate 100 (CHR ''e'') @ ''...'' @ replicate 100 (CHR ''e'')
   \<and> replicate 300 (CHR ''e'') \<noteq> summarize_evaluation (replicate 300 (CHR ''e''))"
proof -
  have neq: "replicate 300 (CHR ''e'') \<noteq> replicate 100 (CHR ''e'') @ ''...'' @ replicate 100 (CHR ''e'')"
  proof
    assume "replicate 300 (CHR ''e'') = replicate 100 (CHR ''e'') @ ''...'' @ replicate 100 (CHR ''e'')"
    then have "length (replicate 300 (CHR ''e'')) = length (replicate 100 (CHR ''e'') @ ''...'' @ replicate 100 (CHR ''e''))"
      by (rule arg_cong)
    then show False by simp
  qed
  have walk: "build_prompt_with_feedback long_feedback 1 ''p'' =
     Some (Inr [(''user'', ''## Problem: p''),
                (''assistant'', ''s'' @ replicate 300 (CHR ''e'')),
                (''user'', ''You never agree with the above solutions, and provide the TRULY correct and NO-TIMEOUT solution.'')])"
    by (simp add: build_prompt_with_feedback_def conversation_walk.simps long_feedback_def
        summarize_evaluation_def)
  have cut: "summarize_evaluation (replicate 300 (CHR ''e''))
       = replicate 100 (CHR ''e'') @ ''...'' @ replicate 100 (CHR ''e'')"
    by (simp add: summarize_evaluation_def)
  show ?thesis using neq walk cut by simp
qed


subsection \<open>Selection\<close>

lemma priority_gt_trans: "priority_gt a b \<Longrightarrow> priority_gt b c \<Longrightarrow> priority_gt a c"
  by (cases a; cases b; cases c) simp_all

lemma priority_gt_above: "priority_gt x m \<Longrightarrow> \<not> priority_gt a m \<Longrightarrow> priority_gt x a"
  by (cases a; cases x; cases m) simp_all

lemma priority_gt_Infinity: "\<not> priority_gt Infinity a \<Longrightarrow> a = Infinity"
  by (cases a) simp_all

lemma max_loop_split:
  assumes "\<forall>c \<in> set rest. ucb1 s c 1.4 = Inr (f c)"
    and "\<forall>y \<in> set pre. priority_gt (f m) (f y)"
    and "\<forall>y \<in> set mid. \<not> priority_gt (f y) (f m)"
  shows "\<exists>pre' r post. max_loop s rest m (f m) = Inr r
           \<and> pre @ [m] @ mid @ rest = pre' @ [r] @ post
           \<and> (\<forall>y \<in> set pre'. priority_gt (f r) (f y))
           \<and> (\<forall>y \<in> set post. \<not> priority_gt (f y) (f r))"
  using assms
proof (induction rest arbitrary: m pre mid)
  case Nil
  then show ?case by fastforce
next
  case (Cons x rest)
  have key: "ucb1 s x 1.4 = Inr (f x)" and keys: "\<forall>c \<in> set rest. ucb1 s c 1.4 = Inr (f c)"
    using Cons.prems(1) by simp_all
  show ?case
  proof (cases "priority_gt (f x) (f m)")
    case True
    have below: "\<forall>y \<in> set (pre @ [m] @ mid). priority_gt (f x) (f y)"
      using True Cons.prems(2,3) by (auto intro: priority_gt_trans priority_gt_above)
    have "\<exists>pre' r post. max_loop s rest x (f x) = Inr r
           \<and> (pre @ [m] @ mid) @ [x] @ [] @ rest = pre' @ [r] @ post
           \<and> (\<forall>y \<in> set pre'. priority_gt (f r) (f y))
           \<and> (\<forall>y \<in> set post. \<not> priority_gt (f y) (f r))"
      by (rule Cons.IH [OF keys below]) simp
    then show ?thesis using True key by simp
  next
    case False
    have rest_le: "\<forall>y \<in> set (mid @ [x]). \<not> priority_gt (f y) (f m)"
      using False Cons.prems(3) by simp
    have "\<exists>pre' r post. max_loop s rest m (f m) = Inr r
           \<and> pre @ [m] @ (mid @ [x]) @ rest = pre' @ [r] @ post
           \<and> (\<forall>y \<in> set pre'. priority_gt (f r) (f y))
           \<and> (\<forall>y \<in> set post. \<not> priority_gt (f y) (f r))"
      by (rule Cons.IH [OF keys Cons.prems(2) rest_le])
    then show ?thesis using False key by simp
  qed
qed

lemma select_split:
  assumes "children (s ! p) \<noteq> []"
    and "\<forall>c \<in> set (children (s ! p)). ucb1 s c 1.4 = Inr (f c)"
  shows "\<exists>pre r post. select s p = Inr r
           \<and> children (s ! p) = pre @ [r] @ post
           \<and> (\<forall>y \<in> set pre. priority_gt (f r) (f y))
           \<and> (\<forall>y \<in> set post. \<not> priority_gt (f y) (f r))"
proof -
  from assms(1) obtain m rest where ch: "children (s ! p) = m # rest"
    by (cases "children (s ! p)") simp_all
  have "\<exists>pre' r post. max_loop s rest m (f m) = Inr r
           \<and> [] @ [m] @ [] @ rest = pre' @ [r] @ post
           \<and> (\<forall>y \<in> set pre'. priority_gt (f r) (f y))
           \<and> (\<forall>y \<in> set post. \<not> priority_gt (f y) (f r))"
    by (rule max_loop_split) (use assms(2) ch in simp_all)
  then show ?thesis using ch assms(2) by (simp add: select_def)
qed

lemma ucb1_spec_priority:
  assumes "visits (s ! c) = 0 \<or> (0 < visits (s ! c) \<and> parent (s ! c) = Some p \<and> 1 \<le> visits (s ! p))"
  shows "ucb1 s c 1.4 = Inr (spec_priority s p c)"
proof (cases "visits (s ! c) = 0")
  case True
  then show ?thesis by (simp add: ucb1_def spec_priority_def)
next
  case False
  with assms have v: "0 < visits (s ! c)" and par: "parent (s ! c) = Some p"
    and pv: "1 \<le> visits (s ! p)" by simp_all
  have "0 \<le> ln (real_of_int (visits (s ! p)))" using pv by simp
  moreover have "0 < real_of_int (visits (s ! c)) + 0.01" using v by simp
  ultimately have "\<not> ln (real_of_int (visits (s ! p))) / (real_of_int (visits (s ! c)) + 0.01) < 0"
    by (simp add: not_less)
  then show ?thesis using False par pv by (simp add: ucb1_def spec_priority_def)
qed

text \<open>
  Claim C4, as the code has it. Let every child of \<open>p\<close> be unvisited, or be visited with
  \<open>p\<close> as its parent and \<open>p\<close> visited at least once. Then the priority that \<open>ucb1\<close>
  computes for each child is the one of the specification, and \<open>select\<close> returns a child
  \<open>r\<close> such that every child before \<open>r\<close> has a strictly smaller priority and no child
  after \<open>r\<close> has a greater one: the first child of maximal priority. If some child is
  unvisited, the selected child is unvisited.
\<close>

theorem select_first_maximal:
  assumes "children (s ! p) \<noteq> []"
    and "\<forall>c \<in> set (children (s ! p)).
           visits (s ! c) = 0 \<or> (0 < visits (s ! c) \<and> parent (s ! c) = Some p \<and> 1 \<le> visits (s ! p))"
  shows "(\<forall>c \<in> set (children (s ! p)). ucb1 s c 1.4 = Inr (spec_priority s p c)) \<and>
         (\<exists>pre r post. select s p = Inr r
            \<and> children (s ! p) = pre @ [r] @ post
            \<and> (\<forall>y \<in> set pre. priority_gt (spec_priority s p r) (spec_priority s p y))
            \<and> (\<forall>y \<in> set post. \<not> priority_gt (spec_priority s p y) (spec_priority s p r))
            \<and> ((\<exists>c \<in> set (children (s ! p)). visits (s ! c) = 0) \<longrightarrow> visits (s ! r) = 0))"
proof -
  have keys: "\<forall>c \<in> set (children (s ! p)). ucb1 s c 1.4 = Inr (spec_priority s p c)"
  proof
    fix c
    assume "c \<in> set (children (s ! p))"
    with assms(2) have "visits (s ! c) = 0
        \<or> (0 < visits (s ! c) \<and> parent (s ! c) = Some p \<and> 1 \<le> visits (s ! p))"
      by blast
    then show "ucb1 s c 1.4 = Inr (spec_priority s p c)"
      by (rule ucb1_spec_priority)
  qed
  from select_split [OF assms(1) keys] obtain pre r post where
    sel: "select s p = Inr r" and split: "children (s ! p) = pre @ [r] @ post"
    and pre: "\<forall>y \<in> set pre. priority_gt (spec_priority s p r) (spec_priority s p y)"
    and post: "\<forall>y \<in> set post. \<not> priority_gt (spec_priority s p y) (spec_priority s p r)"
    by blast
  have "visits (s ! r) = 0" if cin: "c \<in> set (children (s ! p))" and v0: "visits (s ! c) = 0" for c
  proof -
    have inf: "spec_priority s p c = Infinity" using v0 by (simp add: spec_priority_def)
    consider "c \<in> set pre" | "c = r" | "c \<in> set post"
      using cin split by auto
    then have "spec_priority s p r = Infinity"
    proof cases
      case 1
      with pre have "priority_gt (spec_priority s p r) Infinity"
        using inf by fastforce
      then show ?thesis by simp
    next
      case 2
      with inf show ?thesis by simp
    next
      case 3
      with post have "\<not> priority_gt Infinity (spec_priority s p r)"
        using inf by fastforce
      then show ?thesis by (rule priority_gt_Infinity)
    qed
    then show ?thesis by (simp add: spec_priority_def split: if_splits)
  qed
  with keys sel split pre post show ?thesis by blast
qed


theorem select_first_maximal_witness:
  "select visited_sibling 0 = Inr 2 \<and> ucb1 visited_sibling 1 1.4 = Inr (Finite 0.5)
   \<and> ucb1 visited_sibling 2 1.4 = Inr Infinity"
proof -
  have h1: "children (visited_sibling ! 0) \<noteq> []"
    by (simp add: visited_sibling_def)
  have h2: "\<forall>c \<in> set (children (visited_sibling ! 0)).
           visits (visited_sibling ! c) = 0 \<or> (0 < visits (visited_sibling ! c)
             \<and> parent (visited_sibling ! c) = Some 0 \<and> 1 \<le> visits (visited_sibling ! 0))"
    by (simp add: visited_sibling_def)
  have run: "select visited_sibling 0 = Inr 2 \<and> ucb1 visited_sibling 1 1.4 = Inr (Finite 0.5)
      \<and> ucb1 visited_sibling 2 1.4 = Inr Infinity"
    by (simp add: visited_sibling_def select_def ucb1_def)
  show ?thesis
    using select_first_maximal [OF h1 h2] run by blast
qed

text \<open>
  The claim as written fails where a visited child hangs below a parent whose visit
  counter is 0: \<open>math.log(0)\<close> raises, and \<open>select\<close> raises with it instead of returning
  the unvisited sibling.
\<close>

theorem select_unvisited_parent_counterexample:
  "select unvisited_parent 0 = Inl ValueError \<and> visits (unvisited_parent ! 2) = 0
   \<and> visits (unvisited_parent ! 1) = 3 \<and> children (unvisited_parent ! 0) = [1, 2]"
  by (simp add: unvisited_parent_def select_def ucb1_def)


subsection \<open>Expansion\<close>

lemma expand_children_two:
  assumes "node < length s" and "2 \<le> length choices"
  shows "expand_children s node choices [0, 1]
           = Inr (grow s node (strip (choices ! 0)) (strip (choices ! 1)))"
proof -
  from assms have "0 < length choices" and "1 < length choices" by arith+
  with assms(1) show ?thesis
    by (simp add: add_child_def Let_def nth_append list_update_append Node_init_def grow_def)
qed

lemma expand_children_short:
  assumes "length choices < 2"
  shows "expand_children s node choices [0, 1] = Inl IndexError"
  using assms by (cases choices) (simp_all add: add_child_def Let_def)

lemma grow_add_child:
  assumes "node < length s"
  shows "grow s node a b = fst (add_child (fst (add_child s node (Some a))) node (Some b))"
  using assms
  by (simp add: add_child_def Let_def nth_append list_update_append Node_init_def grow_def)

text \<open>
  Claim C6, as the code has it. At or beyond the depth limit \<open>expand\<close> returns the store
  as it was. Below the limit, when the context walk succeeds and the generator returns at
  least two completions, \<open>expand\<close> appends the references of two new nodes to the
  children of the leaf, in the order of the completions, and changes nothing else; the
  new nodes are those that two calls of \<open>add_child\<close> create, with the stripped
  completions as states and the depth of the leaf plus one.
\<close>

theorem expand_children_added:
  "(depth_limit \<le> depth (s ! node)
      \<longrightarrow> expand llm k problem_description depth_limit s node = Some (Inr s)) \<and>
   (depth (s ! node) < depth_limit \<and> node < length s
      \<and> build_prompt_with_feedback s node problem_description = Some (Inr messages)
      \<and> 2 \<le> length (llm k messages)
      \<longrightarrow> expand llm k problem_description depth_limit s node =
            Some (Inr (s[node := (s ! node)\<lparr>children :=
                                   children (s ! node) @ [length s, Suc (length s)]\<rparr>]
                       @ [Node_init (Some (strip (llm k messages ! 0))) (Some node) None
                            (depth (s ! node) + 1),
                          Node_init (Some (strip (llm k messages ! 1))) (Some node) None
                            (depth (s ! node) + 1)]))
          \<and> s[node := (s ! node)\<lparr>children :=
                                   children (s ! node) @ [length s, Suc (length s)]\<rparr>]
                       @ [Node_init (Some (strip (llm k messages ! 0))) (Some node) None
                            (depth (s ! node) + 1),
                          Node_init (Some (strip (llm k messages ! 1))) (Some node) None
                            (depth (s ! node) + 1)]
            = fst (add_child (fst (add_child s node (Some (strip (llm k messages ! 0)))))
                     node (Some (strip (llm k messages ! 1)))))"
proof (intro conjI impI)
  assume "depth_limit \<le> depth (s ! node)"
  then show "expand llm k problem_description depth_limit s node = Some (Inr s)"
    by (simp add: expand_def)
next
  assume a: "depth (s ! node) < depth_limit \<and> node < length s
      \<and> build_prompt_with_feedback s node problem_description = Some (Inr messages)
      \<and> 2 \<le> length (llm k messages)"
  then have "expand_children s node (llm k messages) [0, 1]
      = Inr (grow s node (strip (llm k messages ! 0)) (strip (llm k messages ! 1)))"
    by (intro expand_children_two) simp_all
  with a show "expand llm k problem_description depth_limit s node =
            Some (Inr (s[node := (s ! node)\<lparr>children :=
                                   children (s ! node) @ [length s, Suc (length s)]\<rparr>]
                       @ [Node_init (Some (strip (llm k messages ! 0))) (Some node) None
                            (depth (s ! node) + 1),
                          Node_init (Some (strip (llm k messages ! 1))) (Some node) None
                            (depth (s ! node) + 1)]))"
    by (simp add: expand_def grow_def)
next
  assume a: "depth (s ! node) < depth_limit \<and> node < length s
      \<and> build_prompt_with_feedback s node problem_description = Some (Inr messages)
      \<and> 2 \<le> length (llm k messages)"
  then have "node < length s" by simp
  from grow_add_child [OF this]
  show "s[node := (s ! node)\<lparr>children :=
                                   children (s ! node) @ [length s, Suc (length s)]\<rparr>]
                       @ [Node_init (Some (strip (llm k messages ! 0))) (Some node) None
                            (depth (s ! node) + 1),
                          Node_init (Some (strip (llm k messages ! 1))) (Some node) None
                            (depth (s ! node) + 1)]
            = fst (add_child (fst (add_child s node (Some (strip (llm k messages ! 0)))))
                     node (Some (strip (llm k messages ! 1))))"
    by (simp add: grow_def)
qed

theorem expand_children_added_witness:
  "expand llm_two 0 ''p'' 5 [Node_init (Some ''r'') None None 0] 0 =
     Some (Inr [\<lparr>state = Some ''r'', parent = None, children = [1, 2], visits = 0, score = 0,
                 evaluation = None, reward_samples = [], Q = 0, depth = 0\<rparr>,
                \<lparr>state = Some ''a'', parent = Some 0, children = [], visits = 0, score = 0,
                 evaluation = None, reward_samples = [], Q = 0, depth = 1\<rparr>,
                \<lparr>state = Some ''b'', parent = Some 0, children = [], visits = 0, score = 0,
                 evaluation = None, reward_samples = [], Q = 0, depth = 1\<rparr>])
   \<and> expand llm_two 0 ''p'' 0 [Node_init (Some ''r'') None None 0] 0 =
     Some (Inr [Node_init (Some ''r'') None None 0])"
proof -
  have msgs: "build_prompt_with_feedback [Node_init (Some ''r'') None None 0] 0 ''p''
      = Some (Inr [(''user'', ''## Problem: p''),
           (''user'', ''You never agree with the above solutions, and provide the TRULY correct and NO-TIMEOUT solution.'')])"
    by (simp add: build_prompt_with_feedback_def conversation_walk.simps Node_init_def)
  have pre: "depth ([Node_init (Some ''r'') None None 0] ! 0) < 5
      \<and> 0 < length [Node_init (Some ''r'') None None 0]
      \<and> build_prompt_with_feedback [Node_init (Some ''r'') None None 0] 0 ''p''
          = Some (Inr [(''user'', ''## Problem: p''),
           (''user'', ''You never agree with the above solutions, and provide the TRULY correct and NO-TIMEOUT solution.'')])
      \<and> 2 \<le> length (llm_two 0 [(''user'', ''## Problem: p''),
           (''user'', ''You never agree with the above solutions, and provide the TRULY correct and NO-TIMEOUT solution.'')])"
    using msgs by (simp add: Node_init_def llm_two_def)
  have limit: "0 \<le> depth ([Node_init (Some ''r'') None None 0] ! 0)"
    by (simp add: Node_init_def)
  from pre limit
    expand_children_added [of 5 "[Node_init (Some ''r'') None None 0]" 0 llm_two 0 "''p''"
        "[(''user'', ''## Problem: p''),
           (''user'', ''You never agree with the above solutions, and provide the TRULY correct and NO-TIMEOUT solution.'')]"]
    expand_children_added [of 0 "[Node_init (Some ''r'') None None 0]" 0 llm_two 0 "''p''"]
  have "expand llm_two 0 ''p'' 5 [Node_init (Some ''r'') None None 0] 0 =
      Some (Inr ([Node_init (Some ''r'') None None 0]
                   [0 := ([Node_init (Some ''r'') None None 0] ! 0)\<lparr>children :=
                       children ([Node_init (Some ''r'') None None 0] ! 0)
                         @ [length [Node_init (Some ''r'') None None 0],
                            Suc (length [Node_init (Some ''r'') None None 0])]\<rparr>]
         @ [Node_init (Some (strip (llm_two 0 [(''user'', ''## Problem: p''),
           (''user'', ''You never agree with the above solutions, and provide the TRULY correct and NO-TIMEOUT solution.'')] ! 0))) (Some 0) None
                            (depth ([Node_init (Some ''r'') None None 0] ! 0) + 1),
            Node_init (Some (strip (llm_two 0 [(''user'', ''## Problem: p''),
           (''user'', ''You never agree with the above solutions, and provide the TRULY correct and NO-TIMEOUT solution.'')] ! 1))) (Some 0) None
                            (depth ([Node_init (Some ''r'') None None 0] ! 0) + 1)]))"
    and "expand llm_two 0 ''p'' 0 [Node_init (Some ''r'') None None 0] 0 =
      Some (Inr [Node_init (Some ''r'') None None 0])"
    by blast+
  then show ?thesis
    by (simp add: Node_init_def llm_two_def strip_def is_space_def)
qed

text \<open>
  The claim as written fails for a leaf that has a parent but no evaluation yet: the
  context walk raises \<open>TypeError\<close> and no child is added. It also fails when the
  generator returns a single completion: reading the second one raises \<open>IndexError\<close>.
\<close>

theorem expand_unsimulated_counterexample:
  "expand llm_two 0 ''p'' 5 unsimulated_leaf 1 = Some (Inl TypeError)
   \<and> depth (unsimulated_leaf ! 1) = 1 \<and> children (unsimulated_leaf ! 1) = []
   \<and> expand llm_one 0 ''p'' 5 [Node_init (Some ''r'') None None 0] 0 = Some (Inl IndexError)"
  by (simp add: expand_def build_prompt_with_feedback_def conversation_walk.simps
      unsimulated_leaf_def llm_one_def Node_init_def add_child_def)

subsection \<open>Stores of a run\<close>

lemma add_reward_at_length [simp]: "length (add_reward_at s i r) = length s"
  by (simp add: add_reward_at_def)

lemma add_reward_at_nth:
  "j < length s \<Longrightarrow> add_reward_at s i r ! j = (if j = i then add_reward (s ! j) r else s ! j)"
  by (simp add: add_reward_at_def)

lemma parents_below_add_reward_at: "parents_below s \<Longrightarrow> parents_below (add_reward_at s i r)"
  by (simp add: parents_below_def add_reward_at_nth)

lemma parents_belowD: "parents_below s \<Longrightarrow> i < length s \<Longrightarrow> parent (s ! i) = Some p \<Longrightarrow> p < i"
  by (simp add: parents_below_def)

lemma backpropagate_total:
  assumes "parents_below s" and "i < length s"
  shows "\<exists>s'. backpropagate s (Some i) r = Some s' \<and> touched r s s'
           \<and> s' ! i = add_reward (s ! i) r
           \<and> (\<forall>j. i < j \<longrightarrow> j < length s \<longrightarrow> s' ! j = s ! j)"
  using assms
proof (induction i arbitrary: s rule: less_induct)
  case (less i)
  let ?s1 = "add_reward_at s i r"
  have unfold: "backpropagate s (Some i) r = backpropagate ?s1 (parent (s ! i)) r"
    using less.prems(2) by (subst backpropagate.simps) (simp add: add_reward_at_nth)
  show ?case
  proof (cases "parent (s ! i)")
    case None
    have "backpropagate ?s1 None r = Some ?s1"
      by (subst backpropagate.simps) simp
    with None unfold less.prems(2) show ?thesis
      by (simp add: touched_def add_reward_at_nth)
  next
    case (Some p)
    with less.prems have p: "p < i" by (auto dest: parents_belowD)
    have "\<exists>s'. backpropagate ?s1 (Some p) r = Some s' \<and> touched r ?s1 s'
           \<and> s' ! p = add_reward (?s1 ! p) r
           \<and> (\<forall>j. p < j \<longrightarrow> j < length ?s1 \<longrightarrow> s' ! j = ?s1 ! j)"
      using less.prems p by (intro less.IH parents_below_add_reward_at) simp_all
    then obtain s' where bp: "backpropagate ?s1 (Some p) r = Some s'"
      and t: "touched r ?s1 s'"
      and above: "\<forall>j. p < j \<longrightarrow> j < length ?s1 \<longrightarrow> s' ! j = ?s1 ! j"
      by blast
    have "touched r s s'"
      unfolding touched_def
    proof (intro conjI allI impI)
      show "length s' = length s" using t by (simp add: touched_def)
    next
      fix j assume j: "j < length s"
      show "s' ! j = s ! j \<or> s' ! j = add_reward (s ! j) r"
      proof (cases "j = i")
        case True
        with above p less.prems(2) show ?thesis by (simp add: add_reward_at_nth)
      next
        case False
        with t j show ?thesis by (auto simp: touched_def add_reward_at_nth)
      qed
    qed
    moreover have "s' ! i = add_reward (s ! i) r"
      using above p less.prems(2) by (simp add: add_reward_at_nth)
    moreover have "\<forall>j. i < j \<longrightarrow> j < length s \<longrightarrow> s' ! j = s ! j"
      using above p by (simp add: add_reward_at_nth)
    ultimately show ?thesis using unfold Some bp by simp
  qed
qed

lemma tree_inv_parents_below: "tree_inv s \<Longrightarrow> parents_below s"
  unfolding tree_inv_def parents_below_def by blast

lemma tree_inv_visits: "tree_inv s \<Longrightarrow> i < length s \<Longrightarrow> visits (s ! i) = 0"
  unfolding tree_inv_def by blast

lemma tree_inv_children:
  "tree_inv s \<Longrightarrow> i < length s \<Longrightarrow> c \<in> set (children (s ! i)) \<Longrightarrow> i < c \<and> c < length s"
  unfolding tree_inv_def by blast

lemma tree_inv_parent:
  "tree_inv s \<Longrightarrow> i < length s \<Longrightarrow> parent (s ! i) = Some p \<Longrightarrow> p < i"
  unfolding tree_inv_def by blast

lemma tree_inv_root:
  "tree_inv s \<Longrightarrow> i < length s \<Longrightarrow> parent (s ! i) = None \<Longrightarrow> i = 0"
  unfolding tree_inv_def by blast

subsection \<open>Descent\<close>

lemma max_loop_unvisited:
  "\<forall>x \<in> set rest. visits (s ! x) = 0 \<Longrightarrow> max_loop s rest m Infinity = Inr m"
  by (induction rest) (simp_all add: ucb1_def)

lemma select_unvisited:
  assumes "children (s ! i) = c # rest" and "\<forall>x \<in> set (c # rest). visits (s ! x) = 0"
  shows "select s i = Inr c"
  using assms by (simp add: select_def ucb1_def max_loop_unvisited)

lemma descend_total:
  assumes "tree_inv s" and "i < length s"
  shows "\<exists>leaf. descend s i = Some (Inr leaf) \<and> i \<le> leaf \<and> leaf < length s
           \<and> children (s ! leaf) = []"
  using assms(2)
proof (induction "length s - i" arbitrary: i rule: less_induct)
  case less
  show ?case
  proof (cases "children (s ! i)")
    case Nil
    then have "descend s i = Some (Inr i)"
      by (subst descend.simps) simp
    with Nil less.prems show ?thesis by simp
  next
    case (Cons c rest)
    have in_range: "\<forall>x \<in> set (c # rest). i < x \<and> x < length s"
      using tree_inv_children [OF assms(1) less.prems] Cons by simp
    then have "\<forall>x \<in> set (c # rest). visits (s ! x) = 0"
      using tree_inv_visits [OF assms(1)] by simp
    then have sel: "select s i = Inr c"
      using Cons by (intro select_unvisited)
    have c: "i < c" "c < length s" using in_range by simp_all
    then have "\<exists>leaf. descend s c = Some (Inr leaf) \<and> c \<le> leaf \<and> leaf < length s
           \<and> children (s ! leaf) = []"
      by (intro less.hyps) simp_all
    moreover have "descend s i = descend s c"
      using Cons sel by (subst descend.simps) simp
    ultimately show ?thesis using c by auto
  qed
qed

subsection \<open>The context walk inside a run\<close>

lemma conversation_walk_total:
  assumes "tree_inv s"
    and "\<forall>j. 0 < j \<longrightarrow> j < length s \<longrightarrow> state (s ! j) \<noteq> None \<and> evaluation (s ! j) \<noteq> None"
    and "i < length s"
  shows "\<exists>h'. conversation_walk s i h = Some (Inr h')"
  using assms(3)
proof (induction i arbitrary: h rule: less_induct)
  case (less i)
  show ?case
  proof (cases "parent (s ! i)")
    case None
    then show ?thesis by (subst conversation_walk.simps) simp
  next
    case (Some p)
    then have p: "p < i" using tree_inv_parent [OF assms(1) less.prems] by simp
    then have "0 < i" by simp
    with assms(2) less.prems obtain st e where
      st: "state (s ! i) = Some st" and e: "evaluation (s ! i) = Some e"
      by fastforce
    have "conversation_walk s i h
        = conversation_walk s p (h @ [(''assistant'', summarize_evaluation st @ e)])"
      by (subst conversation_walk.simps) (simp add: Some st e)
    moreover have "\<exists>h'. conversation_walk s p (h @ [(''assistant'', summarize_evaluation st @ e)])
        = Some (Inr h')"
      using p less.prems by (intro less.IH) simp_all
    ultimately show ?thesis by simp
  qed
qed

lemma build_prompt_total:
  assumes "tree_inv s"
    and "\<forall>j. 0 < j \<longrightarrow> j < length s \<longrightarrow> state (s ! j) \<noteq> None \<and> evaluation (s ! j) \<noteq> None"
    and "i < length s"
  shows "\<exists>messages. build_prompt_with_feedback s i pd = Some (Inr messages)"
  using conversation_walk_total [OF assms, of "[]"]
  by (auto simp: build_prompt_with_feedback_def)

lemma tree_invI:
  assumes "s \<noteq> []"
    and "\<And>i. i < length s \<Longrightarrow> parent (s ! i) = None \<Longrightarrow> i = 0"
    and "\<And>i p. i < length s \<Longrightarrow> parent (s ! i) = Some p \<Longrightarrow> p < i"
    and "\<And>i. i < length s \<Longrightarrow> visits (s ! i) = 0"
    and "\<And>i c. i < length s \<Longrightarrow> c \<in> set (children (s ! i)) \<Longrightarrow> i < c \<and> c < length s"
  shows "tree_inv s"
  unfolding tree_inv_def using assms by blast

lemma tree_inv_nonempty: "tree_inv s \<Longrightarrow> s \<noteq> []"
  unfolding tree_inv_def by blast

lemma tree_inv_same_links:
  assumes "tree_inv s" and "same_links s s'"
  shows "tree_inv s'"
proof (rule tree_invI)
  have len: "length s' = length s" using assms(2) by (simp add: same_links_def)
  have par: "parent (s' ! j) = parent (s ! j)" and ch: "children (s' ! j) = children (s ! j)"
    and vis: "visits (s' ! j) = visits (s ! j)" if "j < length s" for j
    using assms(2) that by (simp_all add: same_links_def)
  show "s' \<noteq> []" using tree_inv_nonempty [OF assms(1)] len by auto
  show "i = 0" if "i < length s'" "parent (s' ! i) = None" for i
    using that len par [of i] tree_inv_root [OF assms(1), of i] by simp
  show "p < i" if "i < length s'" "parent (s' ! i) = Some p" for i p
    using that len par [of i] tree_inv_parent [OF assms(1), of i p] by simp
  show "visits (s' ! i) = 0" if "i < length s'" for i
    using that len vis [of i] tree_inv_visits [OF assms(1), of i] by simp
  show "i < c \<and> c < length s'" if "i < length s'" "c \<in> set (children (s' ! i))" for i c
    using that len ch [of i] tree_inv_children [OF assms(1), of i c] by simp
qed

lemma grow_length [simp]: "length (grow s l a b) = Suc (Suc (length s))"
  by (simp add: grow_def)

lemma grow_nth_old:
  "j < length s \<Longrightarrow>
   grow s l a b ! j =
     (if j = l then (s ! l)\<lparr>children := children (s ! l) @ [length s, Suc (length s)]\<rparr>
      else s ! j)"
  by (simp add: grow_def nth_append)

lemma grow_nth_first: "grow s l a b ! length s = Node_init (Some a) (Some l) None (depth (s ! l) + 1)"
  by (simp add: grow_def nth_append)

lemma grow_nth_second:
  "grow s l a b ! Suc (length s) = Node_init (Some b) (Some l) None (depth (s ! l) + 1)"
  by (simp add: grow_def nth_append)

lemma grow_cases:
  assumes "i < length (grow s l a b)"
  obtains "i < length s" | "i = length s" | "i = Suc (length s)"
  using assms by (simp add: less_Suc_eq) blast

lemma tree_inv_grow:
  assumes "tree_inv s" and "l < length s"
  shows "tree_inv (grow s l a b)"
proof (rule tree_invI)
  show "grow s l a b \<noteq> []" by (simp add: grow_def)
next
  fix i assume i: "i < length (grow s l a b)" and none: "parent (grow s l a b ! i) = None"
  from i show "i = 0"
  proof (cases rule: grow_cases)
    case 1
    with none have "parent (s ! i) = None" by (simp add: grow_nth_old split: if_splits)
    with 1 show ?thesis using tree_inv_root [OF assms(1)] by blast
  next
    case 2
    with none show ?thesis by (simp add: grow_nth_first Node_init_def)
  next
    case 3
    with none show ?thesis by (simp add: grow_nth_second Node_init_def)
  qed
next
  fix i p assume i: "i < length (grow s l a b)" and some: "parent (grow s l a b ! i) = Some p"
  from i show "p < i"
  proof (cases rule: grow_cases)
    case 1
    with some have "parent (s ! i) = Some p" by (simp add: grow_nth_old split: if_splits)
    with 1 show ?thesis using tree_inv_parent [OF assms(1)] by blast
  next
    case 2
    with some assms(2) show ?thesis by (simp add: grow_nth_first Node_init_def)
  next
    case 3
    with some assms(2) show ?thesis by (simp add: grow_nth_second Node_init_def)
  qed
next
  fix i assume i: "i < length (grow s l a b)"
  then show "visits (grow s l a b ! i) = 0"
  proof (cases rule: grow_cases)
    case 1
    then have "visits (grow s l a b ! i) = visits (s ! i)" by (simp add: grow_nth_old)
    with 1 show ?thesis using tree_inv_visits [OF assms(1)] by simp
  next
    case 2
    then show ?thesis by (simp add: grow_nth_first Node_init_def)
  next
    case 3
    then show ?thesis by (simp add: grow_nth_second Node_init_def)
  qed
next
  fix i c assume i: "i < length (grow s l a b)" and c: "c \<in> set (children (grow s l a b ! i))"
  from i show "i < c \<and> c < length (grow s l a b)"
  proof (cases rule: grow_cases)
    case 1
    show ?thesis
    proof (cases "c \<in> set (children (s ! i))")
      case True
      with 1 have "i < c \<and> c < length s" using tree_inv_children [OF assms(1)] by blast
      then show ?thesis by simp
    next
      case False
      with c 1 have "i = l \<and> (c = length s \<or> c = Suc (length s))"
        by (simp add: grow_nth_old split: if_splits)
      with 1 show ?thesis by auto
    qed
  next
    case 2
    with c show ?thesis by (simp add: grow_nth_first Node_init_def)
  next
    case 3
    with c show ?thesis by (simp add: grow_nth_second Node_init_def)
  qed
qed

lemma simulated_grow:
  "i < length s \<Longrightarrow> simulated ev (grow s l a b ! i) = simulated ev (s ! i)"
  by (simp add: grow_nth_old simulated_def)

subsection \<open>One simulation\<close>

lemma touched_nth:
  "touched r s s' \<Longrightarrow> j < length s \<Longrightarrow> s' ! j = s ! j \<or> s' ! j = add_reward (s ! j) r"
  by (simp add: touched_def)

lemma simulate_total:
  assumes "parents_below s" and "c < length s"
  shows "\<exists>s'. simulate ev k s c = Some (s', to_submit_signal (ev k (state (s ! c))))
           \<and> same_links s s'
           \<and> evaluation (s' ! c) = Some (simulate_evaluation (ev k (state (s ! c))))
           \<and> reward_samples (s' ! c)
               = reward_samples (s ! c) @ [simulate_score (ev k (state (s ! c)))]
           \<and> (\<forall>j < length s. j \<noteq> c \<longrightarrow> evaluation (s' ! j) = evaluation (s ! j)
                 \<and> (reward_samples (s' ! j) = reward_samples (s ! j)
                    \<or> reward_samples (s' ! j)
                        = reward_samples (s ! j) @ [simulate_score (ev k (state (s ! c)))]))
           \<and> (\<forall>j. c < j \<longrightarrow> j < length s \<longrightarrow> s' ! j = s ! j)"
proof -
  let ?r = "simulate_score (ev k (state (s ! c)))"
  let ?s0 = "s[c := (s ! c)\<lparr>evaluation := Some (simulate_evaluation (ev k (state (s ! c))))\<rparr>]"
  have len0: "length ?s0 = length s" by simp
  have nth0: "?s0 ! j = (if j = c then (s ! c)\<lparr>evaluation :=
                 Some (simulate_evaluation (ev k (state (s ! c))))\<rparr> else s ! j)"
    if "j < length s" for j
    using that by (simp add: nth_list_update)
  have pb: "parents_below ?s0"
    unfolding parents_below_def
  proof (intro allI impI)
    fix i p assume i: "i < length ?s0" and par: "parent (?s0 ! i) = Some p"
    have "parent (?s0 ! i) = parent (s ! i)"
      using i by (cases "i = c") simp_all
    with i par have "i < length s" and "parent (s ! i) = Some p" by simp_all
    then show "p < i" by (rule parents_belowD [OF assms(1)])
  qed
  from backpropagate_total [OF pb, of c ?r] assms(2) obtain s' where
    bp: "backpropagate ?s0 (Some c) ?r = Some s'" and t: "touched ?r ?s0 s'"
    and at: "s' ! c = add_reward (?s0 ! c) ?r"
    and above: "\<forall>j. c < j \<longrightarrow> j < length ?s0 \<longrightarrow> s' ! j = ?s0 ! j"
    by auto
  have len: "length s' = length s" using t by (simp add: touched_def)
  have node: "s' ! j = ?s0 ! j \<or> s' ! j = add_reward (?s0 ! j) ?r" if "j < length s" for j
    using touched_nth [OF t, of j] that by simp
  have "same_links s s'"
    unfolding same_links_def
  proof (intro conjI allI impI)
    show "length s' = length s" by (rule len)
  next
    fix j assume j: "j < length s"
    from node [OF j] nth0 [OF j]
    show "parent (s' ! j) = parent (s ! j)" by (auto split: if_splits)
    from node [OF j] nth0 [OF j]
    show "children (s' ! j) = children (s ! j)" by (auto split: if_splits)
    from node [OF j] nth0 [OF j]
    show "visits (s' ! j) = visits (s ! j)" by (auto split: if_splits)
    from node [OF j] nth0 [OF j]
    show "state (s' ! j) = state (s ! j)" by (auto split: if_splits)
    from node [OF j] nth0 [OF j]
    show "depth (s' ! j) = depth (s ! j)" by (auto split: if_splits)
  qed
  moreover have "simulate ev k s c = Some (s', to_submit_signal (ev k (state (s ! c))))"
    using bp by (simp add: simulate_def)
  moreover have "evaluation (s' ! c) = Some (simulate_evaluation (ev k (state (s ! c))))"
    using at nth0 [OF assms(2)] by simp
  moreover have "reward_samples (s' ! c) = reward_samples (s ! c) @ [?r]"
    using at nth0 [OF assms(2)] by simp
  moreover have "\<forall>j < length s. j \<noteq> c \<longrightarrow> evaluation (s' ! j) = evaluation (s ! j)
                 \<and> (reward_samples (s' ! j) = reward_samples (s ! j)
                    \<or> reward_samples (s' ! j) = reward_samples (s ! j) @ [?r])"
  proof (intro allI impI)
    fix j assume j: "j < length s" and "j \<noteq> c"
    with node [OF j] nth0 [OF j]
    show "evaluation (s' ! j) = evaluation (s ! j)
                 \<and> (reward_samples (s' ! j) = reward_samples (s ! j)
                    \<or> reward_samples (s' ! j) = reward_samples (s ! j) @ [?r])"
      by auto
  qed
  moreover have "\<forall>j. c < j \<longrightarrow> j < length s \<longrightarrow> s' ! j = s ! j"
    using above by (simp add: nth_list_update)
  ultimately show ?thesis by blast
qed

lemma simulated_kept:
  assumes "simulated ev n" and "state n' = state n" and "evaluation n' = evaluation n"
    and "reward_samples n' = reward_samples n \<or> reward_samples n' = reward_samples n @ [r]"
  shows "simulated ev n'"
proof -
  from assms(1) obtain k out where sig: "\<not> to_submit_signal (ev k out)"
    and hd: "hd (reward_samples n) = simulate_score (ev k out)"
    and ne: "reward_samples n \<noteq> []" and st: "state n \<noteq> None" and e: "evaluation n \<noteq> None"
    unfolding simulated_def by blast
  from assms(4) ne have "reward_samples n' \<noteq> []" and "hd (reward_samples n') = hd (reward_samples n)"
    by auto
  with sig hd st e assms(2,3) show ?thesis
    unfolding simulated_def by auto
qed

lemma simulate_step:
  assumes "tree_inv s" and "c < length s" and "state (s ! c) \<noteq> None"
    and "reward_samples (s ! c) = []"
    and "\<forall>i. 0 < i \<longrightarrow> i < c \<longrightarrow> simulated ev (s ! i)"
  shows "\<exists>s'. simulate ev k s c = Some (s', to_submit_signal (ev k (state (s ! c))))
           \<and> tree_inv s' \<and> same_links s s'
           \<and> (\<forall>i. 0 < i \<longrightarrow> i < c \<longrightarrow> simulated ev (s' ! i))
           \<and> (\<forall>j. c < j \<longrightarrow> j < length s \<longrightarrow> s' ! j = s ! j)
           \<and> evaluation (s' ! c) \<noteq> None
           \<and> reward_samples (s' ! c) = [simulate_score (ev k (state (s ! c)))]
           \<and> (\<not> to_submit_signal (ev k (state (s ! c))) \<longrightarrow> simulated ev (s' ! c))"
proof -
  let ?r = "simulate_score (ev k (state (s ! c)))"
  from simulate_total [OF tree_inv_parents_below [OF assms(1)] assms(2), of ev k]
  obtain s' where sim: "simulate ev k s c = Some (s', to_submit_signal (ev k (state (s ! c))))"
    and links: "same_links s s'"
    and evc: "evaluation (s' ! c) = Some (simulate_evaluation (ev k (state (s ! c))))"
    and rsc: "reward_samples (s' ! c) = reward_samples (s ! c) @ [?r]"
    and others: "\<forall>j < length s. j \<noteq> c \<longrightarrow> evaluation (s' ! j) = evaluation (s ! j)
                 \<and> (reward_samples (s' ! j) = reward_samples (s ! j)
                    \<or> reward_samples (s' ! j) = reward_samples (s ! j) @ [?r])"
    and above: "\<forall>j. c < j \<longrightarrow> j < length s \<longrightarrow> s' ! j = s ! j"
    by blast
  have st: "state (s' ! j) = state (s ! j)" if "j < length s" for j
    using links that by (simp add: same_links_def)
  have "\<forall>i. 0 < i \<longrightarrow> i < c \<longrightarrow> simulated ev (s' ! i)"
  proof (intro allI impI)
    fix i assume i: "0 < i" "i < c"
    then have il: "i < length s" and ne: "i \<noteq> c" using assms(2) by simp_all
    from assms(5) i have old: "simulated ev (s ! i)" by blast
    from others il ne have e: "evaluation (s' ! i) = evaluation (s ! i)"
      and rs: "reward_samples (s' ! i) = reward_samples (s ! i)
                    \<or> reward_samples (s' ! i) = reward_samples (s ! i) @ [?r]"
      by blast+
    show "simulated ev (s' ! i)"
      by (rule simulated_kept [OF old st [OF il] e rs])
  qed
  moreover have rs1: "reward_samples (s' ! c) = [?r]" using rsc assms(4) by simp
  moreover have "\<not> to_submit_signal (ev k (state (s ! c))) \<longrightarrow> simulated ev (s' ! c)"
  proof
    assume "\<not> to_submit_signal (ev k (state (s ! c)))"
    then have "\<exists>k' out. \<not> to_submit_signal (ev k' out)
        \<and> hd (reward_samples (s' ! c)) = simulate_score (ev k' out)"
      using rs1 by auto
    then show "simulated ev (s' ! c)"
      using evc rs1 assms(3) st [OF assms(2)] unfolding simulated_def by simp
  qed
  moreover have "tree_inv s'" using assms(1) links by (rule tree_inv_same_links)
  moreover have "evaluation (s' ! c) \<noteq> None" using evc by simp
  ultimately show ?thesis using sim links above by blast
qed

subsection \<open>One iteration of the search loop\<close>

lemma all_simulated_fields:
  assumes "all_simulated ev s"
  shows "\<forall>j. 0 < j \<longrightarrow> j < length s \<longrightarrow> state (s ! j) \<noteq> None \<and> evaluation (s ! j) \<noteq> None"
  using assms unfolding all_simulated_def simulated_def by blast

lemma expand_in_run:
  assumes "tree_inv s" and "all_simulated ev s" and "leaf < length s"
  shows "(depth_limit \<le> depth (s ! leaf) \<and> expand llm k pd depth_limit s leaf = Some (Inr s))
       \<or> (\<exists>m. length (llm k m) < 2 \<and> expand llm k pd depth_limit s leaf = Some (Inl IndexError))
       \<or> (\<exists>a b. expand llm k pd depth_limit s leaf = Some (Inr (grow s leaf a b)))"
proof -
  from build_prompt_total [OF assms(1) all_simulated_fields [OF assms(2)] assms(3), of pd]
  obtain m where m: "build_prompt_with_feedback s leaf pd = Some (Inr m)" by blast
  show ?thesis
  proof (cases "depth_limit \<le> depth (s ! leaf)")
    case True
    then show ?thesis by (simp add: expand_def)
  next
    case deep: False
    show ?thesis
    proof (cases "length (llm k m) < 2")
      case True
      then have "expand llm k pd depth_limit s leaf = Some (Inl IndexError)"
        using deep m by (simp add: expand_def expand_children_short)
      with True show ?thesis by blast
    next
      case False
      then have "expand_children s leaf (llm k m) [0, 1]
          = Inr (grow s leaf (strip (llm k m ! 0)) (strip (llm k m ! 1)))"
        using assms(3) by (intro expand_children_two) simp_all
      then have "expand llm k pd depth_limit s leaf
          = Some (Inr (grow s leaf (strip (llm k m ! 0)) (strip (llm k m ! 1))))"
        using deep m by (simp add: expand_def)
      then show ?thesis by blast
    qed
  qed
qed

lemma same_links_trans:
  assumes "same_links s s2" and "same_links s2 s3"
  shows "same_links s s3"
  using assms unfolding same_links_def by simp

lemma simulate_batch:
  assumes inv: "tree_inv s" and sim: "all_simulated ev s" and leaf: "leaf < length s"
    and nochild: "children (s ! leaf) = []"
  shows "\<exists>s' res. simulate_children ev k (grow s leaf a b) (children (grow s leaf a b ! leaf))
             = Some (s', res)
           \<and> tree_inv s' \<and> length s' = Suc (Suc (length s))
           \<and> (case res of None \<Rightarrow> all_simulated ev s' | Some c \<Rightarrow> found_post ev s' c)
           \<and> same_links (grow s leaf a b) s'
           \<and> ((\<forall>k out. \<not> to_submit_signal (ev k out)) \<longrightarrow> res = None)"
proof -
  let ?s1 = "grow s leaf a b"
  let ?c1 = "length s"
  let ?c2 = "Suc (length s)"
  have inv1: "tree_inv ?s1" using inv leaf by (rule tree_inv_grow)
  have ch: "children (?s1 ! leaf) = [?c1, ?c2]"
    using leaf nochild by (simp add: grow_nth_old)
  have pos: "0 < ?c1" using tree_inv_nonempty [OF inv] by simp
  have old1: "\<forall>i. 0 < i \<longrightarrow> i < ?c1 \<longrightarrow> simulated ev (?s1 ! i)"
    using sim by (simp add: all_simulated_def simulated_grow)
  have c1: "?c1 < length ?s1" and c2: "?c2 < length ?s1" by simp_all
  have n1: "?s1 ! ?c1 = Node_init (Some a) (Some leaf) None (depth (s ! leaf) + 1)"
    by (rule grow_nth_first)
  have n2: "?s1 ! ?c2 = Node_init (Some b) (Some leaf) None (depth (s ! leaf) + 1)"
    by (rule grow_nth_second)
  have st1: "state (?s1 ! ?c1) \<noteq> None" and rs1: "reward_samples (?s1 ! ?c1) = []"
    by (simp_all add: n1 Node_init_def)
  let ?sig1 = "to_submit_signal (ev k (state (?s1 ! ?c1)))"
  from simulate_step [OF inv1 c1 st1 rs1 old1, of k]
  obtain s2 where run1: "simulate ev k ?s1 ?c1 = Some (s2, ?sig1)"
    and inv2: "tree_inv s2" and links2: "same_links ?s1 s2"
    and old2: "\<forall>i. 0 < i \<longrightarrow> i < ?c1 \<longrightarrow> simulated ev (s2 ! i)"
    and above2: "\<forall>j. ?c1 < j \<longrightarrow> j < length ?s1 \<longrightarrow> s2 ! j = ?s1 ! j"
    and ev2: "evaluation (s2 ! ?c1) \<noteq> None"
    and rew2: "reward_samples (s2 ! ?c1) = [simulate_score (ev k (state (?s1 ! ?c1)))]"
    and done2: "\<not> ?sig1 \<longrightarrow> simulated ev (s2 ! ?c1)"
    by blast
  have len2: "length s2 = Suc (Suc (length s))" using links2 by (simp add: same_links_def)
  have keep2: "parent (s2 ! j) = parent (?s1 ! j)" "children (s2 ! j) = children (?s1 ! j)"
    "state (s2 ! j) = state (?s1 ! j)" if "j < Suc (Suc (length s))" for j
    using links2 that by (simp_all add: same_links_def)
  have second2: "s2 ! ?c2 = ?s1 ! ?c2" using above2 by simp
  show ?thesis
  proof (cases ?sig1)
    case True
    have "found_post ev s2 ?c1"
      unfolding found_post_def
    proof (intro conjI allI impI)
      show "0 < ?c1" by (rule pos)
      show "?c1 < length s2" using len2 by simp
      show "children (s2 ! ?c1) = []" using keep2(2) [of ?c1] by (simp add: n1 Node_init_def)
      show "evaluation (s2 ! ?c1) \<noteq> None" by (rule ev2)
      show "\<exists>k out. to_submit_signal (ev k out)
                \<and> reward_samples (s2 ! ?c1) = [simulate_score (ev k out)]"
        using True rew2 by blast
    next
      fix i assume "0 < i" "i < ?c1"
      with old2 show "simulated ev (s2 ! i)" by blast
    next
      fix i assume "?c1 < i" "i < length s2"
      then have i: "i = ?c2" using len2 by simp
      show "parent (s2 ! i) = parent (s2 ! ?c1)"
        using keep2(1) [of ?c1] by (simp add: i second2 n1 n2 Node_init_def)
      show "evaluation (s2 ! i) = None" by (simp add: i second2 n2 Node_init_def)
      show "reward_samples (s2 ! i) = []" by (simp add: i second2 n2 Node_init_def)
      show "children (s2 ! i) = []" by (simp add: i second2 n2 Node_init_def)
    qed
    moreover have "simulate_children ev k ?s1 (children (?s1 ! leaf)) = Some (s2, Some ?c1)"
      using run1 True by (simp add: ch)
    ultimately show ?thesis using inv2 len2 links2 True by auto
  next
    case False
    have c2': "?c2 < length s2" using len2 by simp
    have st2: "state (s2 ! ?c2) \<noteq> None" and rs2: "reward_samples (s2 ! ?c2) = []"
      by (simp_all add: second2 n2 Node_init_def)
    have old2': "\<forall>i. 0 < i \<longrightarrow> i < ?c2 \<longrightarrow> simulated ev (s2 ! i)"
    proof (intro allI impI)
      fix i assume "0 < i" "i < ?c2"
      then consider "0 < i \<and> i < ?c1" | "i = ?c1" by (auto simp: less_Suc_eq)
      then show "simulated ev (s2 ! i)"
      proof cases
        case 1 with old2 show ?thesis by blast
      next
        case 2 with done2 False show ?thesis by simp
      qed
    qed
    let ?sig2 = "to_submit_signal (ev (Suc k) (state (s2 ! ?c2)))"
    from simulate_step [OF inv2 c2' st2 rs2 old2', of "Suc k"]
    obtain s3 where run2: "simulate ev (Suc k) s2 ?c2 = Some (s3, ?sig2)"
      and inv3: "tree_inv s3" and links3: "same_links s2 s3"
      and old3: "\<forall>i. 0 < i \<longrightarrow> i < ?c2 \<longrightarrow> simulated ev (s3 ! i)"
      and ev3: "evaluation (s3 ! ?c2) \<noteq> None"
      and rew3: "reward_samples (s3 ! ?c2) = [simulate_score (ev (Suc k) (state (s2 ! ?c2)))]"
      and done3: "\<not> ?sig2 \<longrightarrow> simulated ev (s3 ! ?c2)"
      by blast
    have len3: "length s3 = Suc (Suc (length s))"
      using links3 len2 by (simp add: same_links_def)
    have links13: "same_links ?s1 s3" using links2 links3 by (rule same_links_trans)
    have ch3: "children (s3 ! ?c2) = []"
      using links3 c2' by (simp add: same_links_def second2 n2 Node_init_def)
    have run: "simulate_children ev k ?s1 (children (?s1 ! leaf))
        = (if ?sig2 then Some (s3, Some ?c2) else Some (s3, None))"
      using run1 False run2 by (simp add: ch)
    show ?thesis
    proof (cases ?sig2)
      case True
      have "found_post ev s3 ?c2"
        unfolding found_post_def
      proof (intro conjI allI impI)
        show "0 < ?c2" by simp
        show "?c2 < length s3" using len3 by simp
        show "children (s3 ! ?c2) = []" by (rule ch3)
        show "evaluation (s3 ! ?c2) \<noteq> None" by (rule ev3)
        show "\<exists>k out. to_submit_signal (ev k out)
                \<and> reward_samples (s3 ! ?c2) = [simulate_score (ev k out)]"
          using True rew3 by blast
      next
        fix i assume "0 < i" "i < ?c2"
        with old3 show "simulated ev (s3 ! i)" by blast
      next
        fix i assume a: "?c2 < i" "i < length s3"
        then have False using len3 by simp
        then show "parent (s3 ! i) = parent (s3 ! ?c2)" "evaluation (s3 ! i) = None"
          "reward_samples (s3 ! i) = []" "children (s3 ! i) = []"
          by simp_all
      qed
      with run True inv3 len3 links13 show ?thesis by auto
    next
      case False
      have "all_simulated ev s3"
        unfolding all_simulated_def
      proof (intro allI impI)
        fix i assume "0 < i" "i < length s3"
        then consider "0 < i \<and> i < ?c2" | "i = ?c2" using len3 by (auto simp: less_Suc_eq)
        then show "simulated ev (s3 ! i)"
        proof cases
          case 1 with old3 show ?thesis by blast
        next
          case 2 with done3 False show ?thesis by simp
        qed
      qed
      with run False inv3 len3 links13 show ?thesis by simp
    qed
  qed
qed

subsection \<open>The whole run\<close>

lemma trial_post_step:
  assumes "trial_post ev ms (step + 1) res s n" and "step < ms"
  shows "trial_post ev ms step res s n"
  using assms by (cases res) (simp_all add: trial_post_def max_def)

lemma mcts_loop_outcome:
  assumes "tree_inv s" and "all_simulated ev s" and "cur < length s"
  shows "(mcts_loop llm ev pd dl ms k step s cur = Some (Inl IndexError)
            \<and> (\<exists>k' m. k \<le> k' \<and> length (llm k' m) < 2))
       \<or> (\<exists>res s' n. mcts_loop llm ev pd dl ms k step s cur = Some (Inr (res, s', n))
            \<and> trial_post ev ms step res s' n)"
  using assms
proof (induction "nat (ms - step)" arbitrary: k step s cur rule: less_induct)
  case less
  note inv = less.prems(1) and sim = less.prems(2) and cur = less.prems(3)
  show ?case
  proof (cases "step < ms")
    case False
    then have "mcts_loop llm ev pd dl ms k step s cur = Some (Inr (None, s, step))"
      by (subst mcts_loop.simps) simp
    moreover have "trial_post ev ms step None s step"
      using False inv sim by (simp add: trial_post_def max_def)
    ultimately show ?thesis by blast
  next
    case True
    from descend_total [OF inv cur] obtain leaf where
      d: "descend s cur = Some (Inr leaf)" and leaf: "leaf < length s"
      and nochild: "children (s ! leaf) = []"
      by blast
    have smaller: "nat (ms - (step + 1)) < nat (ms - step)" using True by simp
    from expand_in_run [OF inv sim leaf, of dl llm k pd]
    consider (limit) "expand llm k pd dl s leaf = Some (Inr s)"
      | (short) m where "length (llm k m) < 2"
          "expand llm k pd dl s leaf = Some (Inl IndexError)"
      | (grown) a b where "expand llm k pd dl s leaf = Some (Inr (grow s leaf a b))"
      by blast
    then show ?thesis
    proof cases
      case limit
      have unfold: "mcts_loop llm ev pd dl ms k step s cur
          = mcts_loop llm ev pd dl ms (Suc k + length (children (s ! leaf))) (step + 1) s leaf"
        by (subst mcts_loop.simps) (simp add: True d limit nochild)
      from less.hyps [OF smaller inv sim leaf, of "Suc k + length (children (s ! leaf))"]
      show ?thesis
      proof (elim disjE conjE exE)
        fix k' m
        assume "mcts_loop llm ev pd dl ms (Suc k + length (children (s ! leaf))) (step + 1) s leaf
            = Some (Inl IndexError)"
          and "Suc k + length (children (s ! leaf)) \<le> k'" and "length (llm k' m) < 2"
        then have "mcts_loop llm ev pd dl ms k step s cur = Some (Inl IndexError)"
          and "k \<le> k'" and "length (llm k' m) < 2"
          using unfold by simp_all
        then show ?thesis by blast
      next
        fix res s' n
        assume "mcts_loop llm ev pd dl ms (Suc k + length (children (s ! leaf))) (step + 1) s leaf
            = Some (Inr (res, s', n))"
          and "trial_post ev ms (step + 1) res s' n"
        then have "mcts_loop llm ev pd dl ms k step s cur = Some (Inr (res, s', n))"
          and "trial_post ev ms step res s' n"
          using unfold True by (simp_all add: trial_post_step)
        then show ?thesis by blast
      qed
    next
      case short
      have "mcts_loop llm ev pd dl ms k step s cur = Some (Inl IndexError)"
        by (subst mcts_loop.simps) (simp add: True d short)
      with short(1) show ?thesis by blast
    next
      case grown
      let ?s1 = "grow s leaf a b"
      from simulate_batch [OF inv sim leaf nochild, where k = "Suc k" and a = a and b = b]
      obtain s' res where
        batch: "simulate_children ev (Suc k) ?s1 (children (?s1 ! leaf)) = Some (s', res)"
        and inv': "tree_inv s'" and len': "length s' = Suc (Suc (length s))"
        and post: "case res of None \<Rightarrow> all_simulated ev s' | Some c \<Rightarrow> found_post ev s' c"
        by blast
      show ?thesis
      proof (cases res)
        case (Some c)
        have "mcts_loop llm ev pd dl ms k step s cur = Some (Inr (Some c, s', step))"
          by (subst mcts_loop.simps) (simp add: True d grown batch Some)
        moreover have "trial_post ev ms step (Some c) s' step"
          using post Some inv' True by (simp add: trial_post_def)
        ultimately show ?thesis by blast
      next
        case None
        have unfold: "mcts_loop llm ev pd dl ms k step s cur
            = mcts_loop llm ev pd dl ms (Suc k + length (children (?s1 ! leaf))) (step + 1) s' leaf"
          by (subst mcts_loop.simps) (simp add: True d grown batch None)
        have sim': "all_simulated ev s'" using post None by simp
        have leaf': "leaf < length s'" using leaf len' by simp
        from less.hyps [OF smaller inv' sim' leaf', of "Suc k + length (children (?s1 ! leaf))"]
        show ?thesis
        proof (elim disjE conjE exE)
          fix k' m
          assume "mcts_loop llm ev pd dl ms (Suc k + length (children (?s1 ! leaf))) (step + 1) s' leaf
              = Some (Inl IndexError)"
            and "Suc k + length (children (?s1 ! leaf)) \<le> k'" and "length (llm k' m) < 2"
          then have "mcts_loop llm ev pd dl ms k step s cur = Some (Inl IndexError)"
            and "k \<le> k'" and "length (llm k' m) < 2"
            using unfold by simp_all
          then show ?thesis by blast
        next
          fix res' s'' n
          assume "mcts_loop llm ev pd dl ms (Suc k + length (children (?s1 ! leaf))) (step + 1) s' leaf
              = Some (Inr (res', s'', n))"
            and "trial_post ev ms (step + 1) res' s'' n"
          then have "mcts_loop llm ev pd dl ms k step s cur = Some (Inr (res', s'', n))"
            and "trial_post ev ms step res' s'' n"
            using unfold True by (simp_all add: trial_post_step)
          then show ?thesis by blast
        qed
      qed
    qed
  qed
qed

lemma initial_tree_inv: "tree_inv [Node_init st None None 0]"
  by (rule tree_invI) (simp_all add: Node_init_def)

lemma initial_all_simulated: "all_simulated ev [Node_init st None None 0]"
  by (simp add: all_simulated_def)

lemma zero_shot_cases:
  "zero_shot_initialization llm rag pd = Inl IndexError
   \<or> (\<exists>st. zero_shot_initialization llm rag pd = Inr [Node_init (Some st) None None 0])"
  unfolding zero_shot_initialization_def by (auto split: list.splits)

lemma zero_shot_contract:
  assumes "generator_contract llm"
  shows "\<exists>st. zero_shot_initialization llm rag pd = Inr [Node_init (Some st) None None 0]"
proof -
  from assms have "llm 0 m \<noteq> []" and "llm 1 m \<noteq> []" for m
    unfolding generator_contract_def by (metis zero_less_numeral, metis one_less_numeral_iff semiring_norm(76))
  then show ?thesis
    by (auto simp: zero_shot_initialization_def split: list.splits)
qed

lemma mcts_trial_cases:
  "(mcts_trial llm rag ev pd dl ms = Some (Inl IndexError)
      \<and> (\<exists>k m. (k < 2 \<and> llm k m = []) \<or> (2 \<le> k \<and> length (llm k m) < 2)))
   \<or> (\<exists>res s n. mcts_trial llm rag ev pd dl ms = Some (Inr (res, s, n))
         \<and> trial_post ev ms 0 res s n)"
proof -
  from zero_shot_cases [of llm rag pd] show ?thesis
  proof (elim disjE exE)
    assume z: "zero_shot_initialization llm rag pd = Inl IndexError"
    have "\<exists>k m. k < 2 \<and> llm k m = []"
    proof (rule ccontr)
      assume "\<not> (\<exists>k m. k < 2 \<and> llm k m = [])"
      then have "llm 0 m \<noteq> []" and "llm 1 m \<noteq> []" for m
        by (metis zero_less_numeral, metis one_less_numeral_iff semiring_norm(76))
      then have "zero_shot_initialization llm rag pd \<noteq> Inl IndexError"
        by (auto simp: zero_shot_initialization_def split: list.splits)
      with z show False by simp
    qed
    with z show ?thesis by (auto simp: mcts_trial_def)
  next
    fix st assume z: "zero_shot_initialization llm rag pd = Inr [Node_init (Some st) None None 0]"
    have run: "mcts_trial llm rag ev pd dl ms
        = mcts_loop llm ev pd dl ms 2 0 [Node_init (Some st) None None 0] 0"
      by (simp add: mcts_trial_def z)
    from mcts_loop_outcome [OF initial_tree_inv initial_all_simulated, of 0 "Some st" llm ev pd dl ms 2 0]
    show ?thesis unfolding run by fastforce
  qed
qed

text \<open>
  Claim C10. In a run of \<open>mcts_trial\<close> the context walk only meets nodes that have been
  simulated: whatever the generator, the retrieval and the evaluator return, the run ends,
  and it never ends with the \<open>TypeError\<close> that the walk raises when it reads the state
  or the evaluation of a node where that field is still \<open>None\<close>. (The only exception a
  run can raise by itself is the \<open>IndexError\<close> of a generator that returns too few
  completions.)
\<close>

theorem mcts_trial_walk_defined:
  "mcts_trial llm rag ev problem_description depth_limit max_steps \<noteq> Some (Inl TypeError)
   \<and> mcts_trial llm rag ev problem_description depth_limit max_steps \<noteq> None"
  using mcts_trial_cases [of llm rag ev problem_description depth_limit max_steps] by auto

subsection \<open>Concrete runs\<close>

text \<open>The equations that evaluate a run on concrete collaborators.\<close>

lemmas run_simps =
  mcts_trial_def zero_shot_initialization_def mcts_loop.simps expand_def simulate_def select_def
  ucb1_def add_child_def add_reward_at_def add_reward_def Node_init_def
  build_prompt_with_feedback_def descend.simps backpropagate.simps conversation_walk.simps
  simulate_score_def simulate_evaluation_def np_mean_def np_min_def strip_def is_space_def
  summarize_evaluation_def



text \<open>
  In every run, whatever the collaborators return, the visit counter of every node is
  still 0 when \<open>mcts_trial\<close> returns.
\<close>

lemma mcts_trial_visits_zero:
  assumes "mcts_trial llm rag ev pd dl ms = Some (Inr (res, s, n))" and "i < length s"
  shows "visits (s ! i) = 0"
proof -
  from mcts_trial_cases [of llm rag ev pd dl ms] assms(1)
  have "trial_post ev ms 0 res s n" by auto
  then have "tree_inv s" by (simp add: trial_post_def)
  then show ?thesis using assms(2) by (rule tree_inv_visits)
qed

text \<open>
  Claim C1 fails on the code. \<open>simulate\<close> calls \<open>backpropagate\<close>, which calls
  \<open>add_reward\<close> only; \<open>update_score\<close> is never called. After one iteration with two
  rejected candidates the root holds two reward samples and each child one, and all three
  visit counters are still 0.
\<close>

theorem mcts_trial_visits_stay_zero:
  "trial_counters (mcts_trial llm_two rag_none ev_fail ''p'' 5 1) = Some [(0, 2), (0, 1), (0, 1)]"
  by (simp add: run_simps trial_counters_def llm_two_def ev_fail_def rag_none_def)

text \<open>
  Claim C2 fails on the code. \<open>backpropagate\<close> from a node of depth 3 with reward 0.5
  appends the reward to the samples of the four nodes of the path, and to no other node,
  but leaves \<open>visits\<close> and \<open>score\<close> of all nodes at 0.
\<close>

theorem backpropagate_leaves_visits:
  "map_option (map node_counters) (backpropagate depth3_tree (Some 3) 0.5)
     = Some [(0, 0, [0.5]), (0, 0, [0.5]), (0, 0, [0.5]), (0, 0, [0.5]), (0, 0, [])]"
  by (simp add: backpropagate.simps depth3_tree_def add_reward_at_def node_counters_def)

text \<open>
  \<open>Node.update_score\<close>, which no function of the engine calls, is the walk that the claim
  describes: from the same node it adds 1 to \<open>visits\<close> and 0.5 to \<open>score\<close> on the four
  nodes of the path and leaves the other branch alone.
\<close>

lemma update_score_walk:
  "map_option (map node_counters) (update_score depth3_tree 3 0.5)
     = Some [(1, 0.5, []), (1, 0.5, []), (1, 0.5, []), (1, 0.5, []), (0, 0, [])]"
  by (simp add: update_score.simps depth3_tree_def node_counters_def)

text \<open>
  Claim C9 as written fails. The loop never returns to the root: each iteration continues
  the descent from the leaf of the previous one. After three iterations with rejected
  candidates the tree has four leaves, at depths 1, 2, 3 and 3, and not six leaves at
  depth 1.
\<close>

theorem mcts_trial_leaves_counterexample:
  "trial_leaf_depths (mcts_trial llm_two rag_none ev_fail ''p'' 5 3) = Some [1, 2, 3, 3]
   \<and> trial_result (mcts_trial llm_two rag_none ev_fail ''p'' 5 3) = Some (None, 3)"
  by (simp add: run_simps trial_leaf_depths_def trial_result_def llm_two_def ev_fail_def
      rag_none_def)

subsection \<open>Three iterations with rejected candidates\<close>

lemma tree_shape_length [simp]: "length (tree_shape s) = length s"
  by (simp add: tree_shape_def)

lemma tree_shape_nth:
  "i < length s \<Longrightarrow> tree_shape s ! i = (parent (s ! i), children (s ! i), depth (s ! i))"
  by (simp add: tree_shape_def)

lemma tree_shape_same_links:
  assumes "same_links s s'"
  shows "tree_shape s' = tree_shape s"
proof (rule nth_equalityI)
  show "length (tree_shape s') = length (tree_shape s)"
    using assms by (simp add: same_links_def)
next
  fix i assume "i < length (tree_shape s')"
  then have i: "i < length s" and i': "i < length s'" using assms by (simp_all add: same_links_def)
  from assms i have "parent (s' ! i) = parent (s ! i)" "children (s' ! i) = children (s ! i)"
    "depth (s' ! i) = depth (s ! i)"
    by (simp_all add: same_links_def)
  then show "tree_shape s' ! i = tree_shape s ! i"
    using i i' by (simp add: tree_shape_nth)
qed

lemma tree_shape_grow:
  assumes "l < length s"
  shows "tree_shape (grow s l a b) = grow_shape (tree_shape s) l"
  using assms
  by (simp add: tree_shape_def grow_def grow_shape_def map_update Node_init_def)

lemma descend_leaf: "children (s ! i) = [] \<Longrightarrow> descend s i = Some (Inr i)"
  by (subst descend.simps) simp

lemma descend_first:
  assumes "tree_inv s" and "i < length s" and "children (s ! i) = c # rest"
  shows "descend s i = descend s c"
proof -
  have "\<forall>x \<in> set (c # rest). i < x \<and> x < length s"
    using tree_inv_children [OF assms(1,2)] assms(3) by simp
  then have "\<forall>x \<in> set (c # rest). visits (s ! x) = 0"
    using tree_inv_visits [OF assms(1)] by simp
  with assms(3) have "select s i = Inr c" by (rule select_unvisited)
  with assms(3) show ?thesis by (subst descend.simps) simp
qed

lemma iteration_rejected:
  assumes inv: "tree_inv s" and sim: "all_simulated ev s"
    and d: "descend s cur = Some (Inr leaf)" and leaf: "leaf < length s"
    and nochild: "children (s ! leaf) = []"
    and step: "step < ms" and deep: "depth (s ! leaf) < dl"
    and gen: "generator_contract llm" and k: "2 \<le> k"
    and nosig: "\<forall>k out. \<not> to_submit_signal (ev k out)"
  shows "\<exists>s' k'. 2 \<le> k'
           \<and> mcts_loop llm ev pd dl ms k step s cur = mcts_loop llm ev pd dl ms k' (step + 1) s' leaf
           \<and> tree_inv s' \<and> all_simulated ev s'
           \<and> tree_shape s' = grow_shape (tree_shape s) leaf"
proof -
  have enough: "\<not> length (llm k m) < 2" for m
    using gen k unfolding generator_contract_def by (simp add: not_less)
  from expand_in_run [OF inv sim leaf, of dl llm k pd] deep enough
  obtain a b where grown: "expand llm k pd dl s leaf = Some (Inr (grow s leaf a b))"
    by auto
  let ?s1 = "grow s leaf a b"
  from simulate_batch [OF inv sim leaf nochild, where k = "Suc k" and a = a and b = b] nosig
  obtain s' where
    batch: "simulate_children ev (Suc k) ?s1 (children (?s1 ! leaf)) = Some (s', None)"
    and inv': "tree_inv s'" and sim': "all_simulated ev s'" and links: "same_links ?s1 s'"
    by force
  have "mcts_loop llm ev pd dl ms k step s cur
      = mcts_loop llm ev pd dl ms (Suc k + length (children (?s1 ! leaf))) (step + 1) s' leaf"
    by (subst mcts_loop.simps) (simp add: step d grown batch)
  moreover have "2 \<le> Suc k + length (children (?s1 ! leaf))" using k by simp
  moreover have "tree_shape s' = grow_shape (tree_shape s) leaf"
    using tree_shape_same_links [OF links] tree_shape_grow [OF leaf] by simp
  ultimately show ?thesis using inv' sim' by blast
qed

lemma iteration_at_limit:
  assumes d: "descend s cur = Some (Inr leaf)" and nochild: "children (s ! leaf) = []"
    and step: "step < ms" and limit: "dl \<le> depth (s ! leaf)"
  shows "mcts_loop llm ev pd dl ms k step s cur = mcts_loop llm ev pd dl ms (Suc k) (step + 1) s leaf"
  by (subst mcts_loop.simps) (simp add: step d limit nochild expand_def)

lemma mcts_loop_exhausted:
  "\<not> step < ms \<Longrightarrow> mcts_loop llm ev pd dl ms k step s cur = Some (Inr (None, s, step))"
  by (subst mcts_loop.simps) simp

lemma shape_fields:
  assumes "tree_shape s = xs" and "i < length xs"
  shows "children (s ! i) = fst (snd (xs ! i))" and "depth (s ! i) = snd (snd (xs ! i))"
    and "i < length s"
  using assms tree_shape_nth [of i s] by auto

text \<open>
  Claim C9, as the code has it. Let the generator return the requested completions and
  let every candidate be evaluated with sample success rate 0.0 and a full status other
  than timeout, hence without success signal. Then \<open>mcts_trial\<close> with \<open>max_steps = 3\<close>
  returns \<open>None\<close> after exactly 3 iterations. Every iteration continues from the leaf
  that the previous one expanded, and selection among unvisited children takes the first
  one. With a depth limit of at least 3 the tree consists of the root and six more nodes,
  two at each of the depths 1, 2 and 3: the children of the root, of the first child of
  the root, and of the first child of that child; its four leaves lie at the depths
  1, 2, 3 and 3. With depth limit 2 the third iteration expands nothing and the tree keeps
  the five nodes of the second iteration.
\<close>

theorem mcts_trial_three_rejections:
  assumes gen: "generator_contract llm" and sig: "success_signal_contract ev"
    and rejected: "\<forall>k out. success_rate_number (ev k out) = 0 \<and> status (ev k out) \<noteq> ''timeout''"
  shows "(3 \<le> depth_limit \<longrightarrow>
           (\<exists>s. mcts_trial llm rag ev problem_description depth_limit 3 = Some (Inr (None, s, 3))
              \<and> tree_shape s = [(None, [1, 2], 0), (Some 0, [3, 4], 1), (Some 0, [], 1),
                                (Some 1, [5, 6], 2), (Some 1, [], 2),
                                (Some 3, [], 3), (Some 3, [], 3)]))
       \<and> (depth_limit = 2 \<longrightarrow>
           (\<exists>s. mcts_trial llm rag ev problem_description depth_limit 3 = Some (Inr (None, s, 3))
              \<and> tree_shape s = [(None, [1, 2], 0), (Some 0, [3, 4], 1), (Some 0, [], 1),
                                (Some 1, [], 2), (Some 1, [], 2)]))"
proof -
  let ?loop = "mcts_loop llm ev problem_description depth_limit 3"
  have nosig: "\<forall>k out. \<not> to_submit_signal (ev k out)"
    using sig rejected unfolding success_signal_contract_def by (simp add: simulate_score_def)
  from zero_shot_contract [OF gen, of rag problem_description] obtain st where
    z: "zero_shot_initialization llm rag problem_description = Inr [Node_init (Some st) None None 0]"
    by blast
  let ?s0 = "[Node_init (Some st) None None 0]"
  have run: "mcts_trial llm rag ev problem_description depth_limit 3 = ?loop 2 0 ?s0 0"
    by (simp add: mcts_trial_def z)
  have sh0: "tree_shape ?s0 = [(None, [], 0)]"
    by (simp add: tree_shape_def Node_init_def)
  have d0: "descend ?s0 0 = Some (Inr 0)"
    by (rule descend_leaf) (simp add: Node_init_def)
  have first: "\<exists>s1 k1. 2 \<le> k1 \<and> ?loop 2 0 ?s0 0 = ?loop k1 1 s1 0 \<and> tree_inv s1
      \<and> all_simulated ev s1 \<and> tree_shape s1 = [(None, [1, 2], 0), (Some 0, [], 1), (Some 0, [], 1)]"
    if dl: "2 \<le> depth_limit"
  proof -
    have "\<exists>s' k'. 2 \<le> k' \<and> ?loop 2 0 ?s0 0 = ?loop k' (0 + 1) s' 0 \<and> tree_inv s'
        \<and> all_simulated ev s' \<and> tree_shape s' = grow_shape (tree_shape ?s0) 0"
      using dl by (intro iteration_rejected initial_tree_inv initial_all_simulated d0 gen nosig)
        (simp_all add: Node_init_def)
    then show ?thesis by (simp add: sh0 grow_shape_def eval_nat_numeral)
  qed
  have second: "\<exists>s2 k2. 2 \<le> k2 \<and> ?loop k1 1 s1 0 = ?loop k2 2 s2 1 \<and> tree_inv s2
      \<and> all_simulated ev s2
      \<and> tree_shape s2 = [(None, [1, 2], 0), (Some 0, [3, 4], 1), (Some 0, [], 1),
                          (Some 1, [], 2), (Some 1, [], 2)]"
    if dl: "2 \<le> depth_limit" and k1: "2 \<le> k1" and inv1: "tree_inv s1"
      and sim1: "all_simulated ev s1"
      and sh1: "tree_shape s1 = [(None, [1, 2], 0), (Some 0, [], 1), (Some 0, [], 1)]"
    for s1 k1
  proof -
    have len: "0 < length s1" "1 < length s1"
      using shape_fields(3) [OF sh1, of 0] shape_fields(3) [OF sh1, of 1] by simp_all
    have ch0: "children (s1 ! 0) = [1, 2]" using shape_fields(1) [OF sh1, of 0] by simp
    have ch1: "children (s1 ! 1) = []" using shape_fields(1) [OF sh1, of 1] by simp
    have dp1: "depth (s1 ! 1) = 1" using shape_fields(2) [OF sh1, of 1] by simp
    have d1: "descend s1 0 = Some (Inr 1)"
      using descend_first [OF inv1 len(1) ch0] descend_leaf [OF ch1] by simp
    have "\<exists>s' k'. 2 \<le> k' \<and> ?loop k1 1 s1 0 = ?loop k' (1 + 1) s' 1 \<and> tree_inv s'
        \<and> all_simulated ev s' \<and> tree_shape s' = grow_shape (tree_shape s1) 1"
      using dl dp1 by (intro iteration_rejected inv1 sim1 d1 len(2) ch1 gen k1 nosig) simp_all
    then show ?thesis by (simp add: sh1 grow_shape_def eval_nat_numeral)
  qed
  have third_fields: "3 < length s2 \<and> 1 < length s2 \<and> children (s2 ! 1) = [3, 4]
      \<and> children (s2 ! 3) = [] \<and> depth (s2 ! 3) = 2"
    if sh2: "tree_shape s2 = [(None, [1, 2], 0), (Some 0, [3, 4], 1), (Some 0, [], 1),
                          (Some 1, [], 2), (Some 1, [], 2)]"
    for s2
    using shape_fields(3) [OF sh2, of 3] shape_fields(3) [OF sh2, of 1]
      shape_fields(1) [OF sh2, of 1] shape_fields(1) [OF sh2, of 3] shape_fields(2) [OF sh2, of 3]
    by simp
  show ?thesis
  proof (intro conjI impI)
    assume dl: "3 \<le> depth_limit"
    then have dl2: "2 \<le> depth_limit" by simp
    from first [OF dl2] obtain s1 k1 where k1: "2 \<le> k1"
      and l1: "?loop 2 0 ?s0 0 = ?loop k1 1 s1 0" and inv1: "tree_inv s1"
      and sim1: "all_simulated ev s1"
      and sh1: "tree_shape s1 = [(None, [1, 2], 0), (Some 0, [], 1), (Some 0, [], 1)]"
      by blast
    from second [OF dl2 k1 inv1 sim1 sh1] obtain s2 k2 where k2: "2 \<le> k2"
      and l2: "?loop k1 1 s1 0 = ?loop k2 2 s2 1" and inv2: "tree_inv s2"
      and sim2: "all_simulated ev s2"
      and sh2: "tree_shape s2 = [(None, [1, 2], 0), (Some 0, [3, 4], 1), (Some 0, [], 1),
                          (Some 1, [], 2), (Some 1, [], 2)]"
      by blast
    from third_fields [OF sh2] have len: "3 < length s2" "1 < length s2"
      and ch1: "children (s2 ! 1) = [3, 4]" and ch3: "children (s2 ! 3) = []"
      and dp3: "depth (s2 ! 3) = 2"
      by simp_all
    have d2: "descend s2 1 = Some (Inr 3)"
      using descend_first [OF inv2 len(2) ch1] descend_leaf [OF ch3] by simp
    have "\<exists>s' k'. 2 \<le> k' \<and> ?loop k2 2 s2 1 = ?loop k' (2 + 1) s' 3 \<and> tree_inv s'
        \<and> all_simulated ev s' \<and> tree_shape s' = grow_shape (tree_shape s2) 3"
      using dl dp3 by (intro iteration_rejected inv2 sim2 d2 len(1) ch3 gen k2 nosig) simp_all
    then obtain s3 k3 where l3: "?loop k2 2 s2 1 = ?loop k3 3 s3 3"
      and sh3: "tree_shape s3 = [(None, [1, 2], 0), (Some 0, [3, 4], 1), (Some 0, [], 1),
                                (Some 1, [5, 6], 2), (Some 1, [], 2),
                                (Some 3, [], 3), (Some 3, [], 3)]"
      by (auto simp: sh2 grow_shape_def eval_nat_numeral)
    have "?loop k3 3 s3 3 = Some (Inr (None, s3, 3))"
      by (rule mcts_loop_exhausted) simp
    with run l1 l2 l3 sh3
    show "\<exists>s. mcts_trial llm rag ev problem_description depth_limit 3 = Some (Inr (None, s, 3))
              \<and> tree_shape s = [(None, [1, 2], 0), (Some 0, [3, 4], 1), (Some 0, [], 1),
                                (Some 1, [5, 6], 2), (Some 1, [], 2),
                                (Some 3, [], 3), (Some 3, [], 3)]"
      by simp
  next
    assume dl: "depth_limit = 2"
    then have dl2: "2 \<le> depth_limit" by simp
    from first [OF dl2] obtain s1 k1 where k1: "2 \<le> k1"
      and l1: "?loop 2 0 ?s0 0 = ?loop k1 1 s1 0" and inv1: "tree_inv s1"
      and sim1: "all_simulated ev s1"
      and sh1: "tree_shape s1 = [(None, [1, 2], 0), (Some 0, [], 1), (Some 0, [], 1)]"
      by blast
    from second [OF dl2 k1 inv1 sim1 sh1] obtain s2 k2 where k2: "2 \<le> k2"
      and l2: "?loop k1 1 s1 0 = ?loop k2 2 s2 1" and inv2: "tree_inv s2"
      and sh2: "tree_shape s2 = [(None, [1, 2], 0), (Some 0, [3, 4], 1), (Some 0, [], 1),
                          (Some 1, [], 2), (Some 1, [], 2)]"
      by blast
    from third_fields [OF sh2] have len: "3 < length s2" "1 < length s2"
      and ch1: "children (s2 ! 1) = [3, 4]" and ch3: "children (s2 ! 3) = []"
      and dp3: "depth (s2 ! 3) = 2"
      by simp_all
    have d2: "descend s2 1 = Some (Inr 3)"
      using descend_first [OF inv2 len(2) ch1] descend_leaf [OF ch3] by simp
    have "?loop k2 2 s2 1 = ?loop (Suc k2) (2 + 1) s2 3"
      using dl dp3 by (intro iteration_at_limit d2 ch3) simp_all
    also have "\<dots> = Some (Inr (None, s2, 3))"
      using mcts_loop_exhausted [of 3 3 llm ev problem_description depth_limit "Suc k2" s2 3]
      by simp
    finally have "?loop k2 2 s2 1 = Some (Inr (None, s2, 3))" .
    with run l1 l2 sh2
    show "\<exists>s. mcts_trial llm rag ev problem_description depth_limit 3 = Some (Inr (None, s, 3))
              \<and> tree_shape s = [(None, [1, 2], 0), (Some 0, [3, 4], 1), (Some 0, [], 1),
                                (Some 1, [], 2), (Some 1, [], 2)]"
      by simp
  qed
qed

theorem mcts_trial_three_rejections_witness:
  "map_option (map_sum id (map_prod id (map_prod tree_shape id)))
     (mcts_trial llm_two rag_none ev_fail ''p'' 5 3)
   = Some (Inr (None, [(None, [1, 2], 0), (Some 0, [3, 4], 1), (Some 0, [], 1),
                       (Some 1, [5, 6], 2), (Some 1, [], 2),
                       (Some 3, [], 3), (Some 3, [], 3)], 3))
   \<and> map_option (map_sum id (map_prod id (map_prod tree_shape id)))
     (mcts_trial llm_two rag_none ev_fail ''p'' 2 3)
   = Some (Inr (None, [(None, [1, 2], 0), (Some 0, [3, 4], 1), (Some 0, [], 1),
                       (Some 1, [], 2), (Some 1, [], 2)], 3))"
proof -
  have gen: "generator_contract llm_two"
    by (simp add: generator_contract_def llm_two_def)
  have sig: "success_signal_contract ev_fail"
    by (simp add: success_signal_contract_def ev_fail_def simulate_score_def)
  have rejected: "\<forall>k out. success_rate_number (ev_fail k out) = 0
      \<and> status (ev_fail k out) \<noteq> ''timeout''"
    by (simp add: ev_fail_def)
  have five: "(3::int) \<le> 5" and two: "(2::int) = 2" by simp_all
  from mcts_trial_three_rejections [OF gen sig rejected, of 5 rag_none "''p''"] five
  obtain s where "mcts_trial llm_two rag_none ev_fail ''p'' 5 3 = Some (Inr (None, s, 3))"
    and "tree_shape s = [(None, [1, 2], 0), (Some 0, [3, 4], 1), (Some 0, [], 1),
                                (Some 1, [5, 6], 2), (Some 1, [], 2),
                                (Some 3, [], 3), (Some 3, [], 3)]"
    by blast
  moreover
  from mcts_trial_three_rejections [OF gen sig rejected, of 2 rag_none "''p''"] two
  obtain s' where "mcts_trial llm_two rag_none ev_fail ''p'' 2 3 = Some (Inr (None, s', 3))"
    and "tree_shape s' = [(None, [1, 2], 0), (Some 0, [3, 4], 1), (Some 0, [], 1),
                          (Some 1, [], 2), (Some 1, [], 2)]"
    by blast
  ultimately show ?thesis by simp
qed

subsection \<open>The trace of a run\<close>

lemma chain_shape_length [simp]: "length (chain_shape e) = 2 * e + 1"
  by (induction e) (simp_all add: grow_shape_def)













text \<open>The tree of three expansions.\<close>

lemma chain_shape_three:
  "chain_shape 3 = [(None, [1, 2], 0), (Some 0, [3, 4], 1), (Some 0, [], 1),
                    (Some 1, [5, 6], 2), (Some 1, [], 2), (Some 3, [], 3), (Some 3, [], 3)]"
  by (simp add: eval_nat_numeral grow_shape_def)


end
